theory Spec2Isabelle
  imports Main
begin

section \<open>The timeout multiplexer of src/backend/utils/misc/timeout.c\<close>

text \<open>
  A shallow embedding of timeout.c: the module's four static variables and the part of
  the process environment the module talks to (the clock, the interval timer, the
  process latch) form one state record, and every C function is a HOL function on that
  state. The code of the registered callbacks belongs to the clients and is a parameter.
  A call that ends in \<open>elog(FATAL)\<close>, \<open>elog(ERROR)\<close> or a failed \<open>Assert\<close> returns
  \<open>Inl\<close> with the error and the state reached at that point; a call that returns
  normally gives \<open>Inr\<close>.
\<close>

subsection \<open>Data\<close>

text \<open>
  \<open>TimeoutId\<close> is the enum of utils/timeout.h, used as an array index. \<open>TimestampTz\<close>
  counts microseconds in a 64-bit integer; it is modelled by the integers, the timestamps
  and delays of the module staying far from the bounds of the type.
\<close>

type_synonym TimeoutId = nat
type_synonym TimestampTz = int

text \<open>A callback is an opaque code address; \<open>None\<close> is the NULL pointer.\<close>

type_synonym timeout_handler_proc = nat

record timeout_params =
  index :: TimeoutId
  indicator :: bool
  timeout_handler :: "timeout_handler_proc option"
  start_time :: TimestampTz
  fin_time :: TimestampTz

text \<open>
  What the module does to its environment, in the order it does it: the value passed to
  each \<open>setitimer(ITIMER_REAL, ...)\<close> call as \<open>(tv_sec, tv_usec)\<close>, the value each
  \<open>GetCurrentTimestamp()\<close> call returned, each callback invoked, each \<open>SetLatch\<close>, and
  the installation of the signal handler.
\<close>

datatype event =
    Ev_setitimer int int
  | Ev_GetCurrentTimestamp TimestampTz
  | Ev_handler timeout_handler_proc
  | Ev_SetLatch
  | Ev_pqsignal_SIGALRM

text \<open>
  The state. \<open>active_timeouts\<close> is the C array of pointers into \<open>all_timeouts\<close>; the
  pointer \<open>&all_timeouts[k]\<close> is written as the slot number \<open>k\<close>, so that
  \<open>active_timeouts[i]->f\<close> is \<open>f (all_timeouts s ! (active_timeouts s ! i))\<close>. Only the
  first \<open>num_active_timeouts\<close> slots of \<open>active_timeouts\<close> are ever read by the code.
  The environment: \<open>clock n\<close> is what the \<open>n\<close>-th call of \<open>GetCurrentTimestamp\<close>
  returns, \<open>setitimer_rc n\<close> the return code of the \<open>n\<close>-th \<open>setitimer\<close> call,
  \<open>MyProc\<close> tells whether the process has a PGPROC, and \<open>trace\<close> is the log of events.
\<close>

record timeout_state =
  all_timeouts :: "timeout_params list"
  all_timeouts_initialized :: bool
  num_active_timeouts :: int
  active_timeouts :: "nat list"
  clock :: "nat \<Rightarrow> TimestampTz"
  clock_reads :: nat
  setitimer_rc :: "nat \<Rightarrow> int"
  setitimer_calls :: nat
  MyProc :: bool
  trace :: "event list"

text \<open>
  Modelled from the spec: the macro \<open>TimestampTzPlusMilliseconds\<close> of utils/timestamp.h
  is missing from the sources. The spec has the AFTER case compute \<open>now + delay_ms\<close> on
  timestamps counted in microseconds, so a delay of \<open>ms\<close> milliseconds adds
  \<open>ms * 1000\<close>.
\<close>

definition TimestampTzPlusMilliseconds :: "TimestampTz \<Rightarrow> int \<Rightarrow> TimestampTz" where
  "TimestampTzPlusMilliseconds tz ms = tz + ms * 1000"

datatype TimeoutType = TMPARAM_AFTER | TMPARAM_AT | TMPARAM_other int

record EnableTimeoutParams =
  etp_id :: TimeoutId
  etp_type :: TimeoutType
  etp_delay_ms :: int
  etp_fin_time :: TimestampTz

record DisableTimeoutParams =
  dtp_id :: TimeoutId
  dtp_keep_indicator :: bool

text \<open>
  The ways a call can end without returning. \<open>Array_overrun\<close> stands for the one place
  where the C code would write past the end of \<open>active_timeouts\<close> (undefined behaviour in
  C): inserting into a queue that already fills the array. \<open>Null_handler_call\<close> is the
  call through a NULL function pointer.
\<close>

datatype error =
    FATAL_could_not_disable_SIGALRM_timer
  | FATAL_could_not_enable_SIGALRM_timer
  | FATAL_timeout_index_out_of_range int int
  | FATAL_cannot_add_more_timeout_reasons
  | ERROR_unrecognized_timeout_type TimeoutType
  | Assertion_failed
  | Array_overrun
  | Null_handler_call

type_synonym 'a outcome = "(error \<times> timeout_state) + 'a"

definition and_then :: "timeout_state outcome \<Rightarrow> (timeout_state \<Rightarrow> 'a outcome) \<Rightarrow> 'a outcome" where
  "and_then r f = (case r of Inl e \<Rightarrow> Inl e | Inr s \<Rightarrow> f s)"

text \<open>
  What the headers utils/timeout.h and utils/timestamp.h fix and the sources at hand do
  not show is a parameter: the two enum constants, whether \<open>Assert\<close> is compiled in,
  and the function \<open>TimestampDifference(start, stop, &secs, &usecs)\<close>. So is the code
  of the callbacks, which belongs to the clients of the module: \<open>run_handler h s\<close> is
  what the callback at address \<open>h\<close> does when it is called in state \<open>s\<close>. A callback
  runs with the whole process state at hand and may call the functions of this module; it
  returns with a state, ends in an error, or does not return at all (\<open>None\<close>).
\<close>

record platform =
  MAX_TIMEOUTS :: nat
  USER_TIMEOUT :: nat
  USE_ASSERT_CHECKING :: bool
  TimestampDifference :: "TimestampTz \<Rightarrow> TimestampTz \<Rightarrow> int \<times> int"
  run_handler :: "timeout_handler_proc \<Rightarrow> timeout_state \<Rightarrow> timeout_state outcome option"

text \<open>\<open>Assert(cond)\<close> traps when assertions are compiled in, and is empty otherwise.\<close>

definition Assert :: "platform \<Rightarrow> bool \<Rightarrow> timeout_state \<Rightarrow> timeout_state outcome" where
  "Assert c cond s = (if USE_ASSERT_CHECKING c \<and> \<not> cond then Inl (Assertion_failed, s) else Inr s)"

subsection \<open>The environment\<close>

definition GetCurrentTimestamp :: "timeout_state \<Rightarrow> TimestampTz \<times> timeout_state" where
  "GetCurrentTimestamp s =
     (let now = clock s (clock_reads s)
      in (now, s\<lparr>clock_reads := Suc (clock_reads s),
                 trace := trace s @ [Ev_GetCurrentTimestamp now]\<rparr>))"

definition setitimer :: "int \<times> int \<Rightarrow> timeout_state \<Rightarrow> int \<times> timeout_state" where
  "setitimer v s =
     (setitimer_rc s (setitimer_calls s),
      s\<lparr>setitimer_calls := Suc (setitimer_calls s),
        trace := trace s @ [Ev_setitimer (fst v) (snd v)]\<rparr>)"

text \<open>
  Calling a registered callback, \<open>(*this_timeout->timeout_handler) ()\<close>: the call is
  logged, then the client's code runs.
\<close>

definition call_handler :: "platform \<Rightarrow> timeout_handler_proc \<Rightarrow> timeout_state \<Rightarrow> timeout_state outcome option" where
  "call_handler c h s = run_handler c h (s\<lparr>trace := trace s @ [Ev_handler h]\<rparr>)"

subsection \<open>Internal helper functions\<close>

definition disable_alarm :: "bool \<Rightarrow> timeout_state \<Rightarrow> timeout_state outcome" where
  "disable_alarm multi_insert s =
     (if multi_insert \<or> num_active_timeouts s > 0 then
        (case setitimer (0, 0) s of
           (rc, s') \<Rightarrow>
             if rc \<noteq> 0 then Inl (FATAL_could_not_disable_SIGALRM_timer, s') else Inr s')
      else Inr s)"

function find_active_loop :: "timeout_state \<Rightarrow> TimeoutId \<Rightarrow> int \<Rightarrow> int" where
  "find_active_loop s tid i =
     (if i < num_active_timeouts s then
        (if index (all_timeouts s ! (active_timeouts s ! nat i)) = tid then i
         else find_active_loop s tid (i + 1))
      else - 1)"
  by pat_completeness auto
termination
  by (relation "measure (\<lambda>(s, tid, i). nat (num_active_timeouts s - i))") auto

definition find_active_timeout :: "timeout_state \<Rightarrow> TimeoutId \<Rightarrow> int" where
  "find_active_timeout s tid = find_active_loop s tid 0"

text \<open>The loop \<open>for (i = num_active_timeouts - 1; i >= index; i--) a[i + 1] = a[i]\<close>.\<close>

function insert_shift :: "nat list \<Rightarrow> int \<Rightarrow> int \<Rightarrow> nat list" where
  "insert_shift a i idx =
     (if i \<ge> idx then insert_shift (a[nat (i + 1) := a ! nat i]) (i - 1) idx else a)"
  by pat_completeness auto
termination
  by (relation "measure (\<lambda>(a, i, idx). nat (i - idx + 1))") auto

definition insert_timeout :: "TimeoutId \<Rightarrow> int \<Rightarrow> timeout_state \<Rightarrow> timeout_state outcome" where
  "insert_timeout tid idx s =
     (if idx < 0 \<or> idx > num_active_timeouts s then
        Inl (FATAL_timeout_index_out_of_range idx (num_active_timeouts s), s)
      else if num_active_timeouts s \<ge> int (length (active_timeouts s)) then
        Inl (Array_overrun, s)
      else
        Inr (s\<lparr>active_timeouts :=
                 (insert_shift (active_timeouts s) (num_active_timeouts s - 1) idx)[nat idx := tid],
               num_active_timeouts := num_active_timeouts s + 1\<rparr>))"

text \<open>The loop \<open>for (i = index + 1; i < num_active_timeouts; i++) a[i - 1] = a[i]\<close>.\<close>

function remove_shift :: "nat list \<Rightarrow> int \<Rightarrow> int \<Rightarrow> nat list" where
  "remove_shift a i n =
     (if i < n then remove_shift (a[nat (i - 1) := a ! nat i]) (i + 1) n else a)"
  by pat_completeness auto
termination
  by (relation "measure (\<lambda>(a, i, n). nat (n - i))") auto

definition remove_timeout_index :: "int \<Rightarrow> timeout_state \<Rightarrow> timeout_state outcome" where
  "remove_timeout_index idx s =
     (if idx < 0 \<or> idx \<ge> num_active_timeouts s then
        Inl (FATAL_timeout_index_out_of_range idx (num_active_timeouts s - 1), s)
      else
        Inr (s\<lparr>active_timeouts :=
                 remove_shift (active_timeouts s) (idx + 1) (num_active_timeouts s),
               num_active_timeouts := num_active_timeouts s - 1\<rparr>))"

text \<open>
  The statements \<open>i = find_active_timeout(id); if (i >= 0) remove_timeout_index(i);\<close>,
  which \<open>enable_timeout\<close>, \<open>disable_timeout\<close> and \<open>disable_timeouts\<close> each contain.
\<close>

definition remove_if_active :: "TimeoutId \<Rightarrow> timeout_state \<Rightarrow> timeout_state outcome" where
  "remove_if_active tid s =
     (let i = find_active_timeout s tid
      in if i \<ge> 0 then remove_timeout_index i s else Inr s)"

text \<open>
  The search loop of \<open>enable_timeout\<close>: the first position whose entry is due later than
  \<open>fin_time\<close>, or at the same time with a larger identifier.
\<close>

function enable_scan :: "timeout_state \<Rightarrow> TimeoutId \<Rightarrow> TimestampTz \<Rightarrow> int \<Rightarrow> int" where
  "enable_scan s tid fin i =
     (if i < num_active_timeouts s then
        (let old_timeout = all_timeouts s ! (active_timeouts s ! nat i) in
         if fin < fin_time old_timeout then i
         else if fin = fin_time old_timeout \<and> tid < index old_timeout then i
         else enable_scan s tid fin (i + 1))
      else i)"
  by pat_completeness auto
termination
  by (relation "measure (\<lambda>(s, tid, fin, i). nat (num_active_timeouts s - i))") auto

definition enable_timeout ::
  "platform \<Rightarrow> TimeoutId \<Rightarrow> TimestampTz \<Rightarrow> TimestampTz \<Rightarrow> timeout_state \<Rightarrow> timeout_state outcome" where
  "enable_timeout c tid now fin s =
     and_then (Assert c (all_timeouts_initialized s) s) (\<lambda>s.
     and_then (Assert c (timeout_handler (all_timeouts s ! tid) \<noteq> None) s) (\<lambda>s.
     and_then (remove_if_active tid s) (\<lambda>s.
       let i = enable_scan s tid fin 0
       in insert_timeout tid i
            (s\<lparr>all_timeouts := (all_timeouts s)
                  [tid := (all_timeouts s ! tid)
                     \<lparr>indicator := False, start_time := now, fin_time := fin\<rparr>]\<rparr>))))"

definition schedule_alarm :: "platform \<Rightarrow> TimestampTz \<Rightarrow> timeout_state \<Rightarrow> timeout_state outcome" where
  "schedule_alarm c now s =
     (if num_active_timeouts s > 0 then
        (case TimestampDifference c now
                (fin_time (all_timeouts s ! (active_timeouts s ! 0))) of
           (secs, usecs) \<Rightarrow>
             (case setitimer (secs, if secs = 0 \<and> usecs = 0 then 1 else usecs) s of
                (rc, s') \<Rightarrow>
                  if rc \<noteq> 0 then Inl (FATAL_could_not_enable_SIGALRM_timer, s') else Inr s'))
      else Inr s)"

subsection \<open>Signal handler\<close>

text \<open>
  The \<open>while\<close> loop of \<open>handle_sig_alarm\<close>; it returns the last value of \<open>now\<close> with
  the state. A callback may put timeouts back into the queue, so the loop need not end:
  \<open>None\<close> is a run that does not return. Saving and restoring \<open>errno\<close> is left out:
  nothing in the model writes it.
\<close>

partial_function (option) fire_pending :: "platform \<Rightarrow> timeout_state \<Rightarrow> TimestampTz \<Rightarrow> (TimestampTz \<times> timeout_state) outcome option" where
  "fire_pending c s now =
     (if num_active_timeouts s > 0 \<and>
         now \<ge> fin_time (all_timeouts s ! (active_timeouts s ! 0)) then
        (let this_timeout = active_timeouts s ! 0 in
         case remove_timeout_index 0 s of
           Inl e \<Rightarrow> Some (Inl e)
         | Inr s1 \<Rightarrow>
             (let s2 = s1\<lparr>all_timeouts := (all_timeouts s1)
                           [this_timeout := (all_timeouts s1 ! this_timeout)\<lparr>indicator := True\<rparr>]\<rparr>
              in case timeout_handler (all_timeouts s2 ! this_timeout) of
                   None \<Rightarrow> Some (Inl (Null_handler_call, s2))
                 | Some h \<Rightarrow>
                     (case call_handler c h s2 of
                        None \<Rightarrow> None
                      | Some (Inl e) \<Rightarrow> Some (Inl e)
                      | Some (Inr s3) \<Rightarrow>
                          (case GetCurrentTimestamp s3 of
                             (now', s4) \<Rightarrow> fire_pending c s4 now'))))
      else Some (Inr (now, s)))"

definition handle_sig_alarm :: "platform \<Rightarrow> timeout_state \<Rightarrow> timeout_state outcome option" where
  "handle_sig_alarm c s =
     (let s0 = (if MyProc s then s\<lparr>trace := trace s @ [Ev_SetLatch]\<rparr> else s) in
      if num_active_timeouts s0 > 0 then
        (case GetCurrentTimestamp s0 of
           (now, s1) \<Rightarrow>
             (case fire_pending c s1 now of
                None \<Rightarrow> None
              | Some (Inl e) \<Rightarrow> Some (Inl e)
              | Some (Inr (now', s2)) \<Rightarrow> Some (schedule_alarm c now' s2)))
      else Some (Inr s0))"

subsection \<open>Public API\<close>

definition InitializeTimeouts :: "platform \<Rightarrow> timeout_state \<Rightarrow> timeout_state" where
  "InitializeTimeouts c s =
     s\<lparr>num_active_timeouts := 0,
       all_timeouts :=
         map (\<lambda>i. \<lparr>index = i, indicator = False, timeout_handler = None,
                    start_time = 0, fin_time = 0\<rparr>) [0..<MAX_TIMEOUTS c],
       all_timeouts_initialized := True,
       trace := trace s @ [Ev_pqsignal_SIGALRM]\<rparr>"

text \<open>The loop \<open>for (id = USER_TIMEOUT; id < MAX_TIMEOUTS; id++) if (... == NULL) break\<close>.\<close>

function find_free_slot :: "timeout_params list \<Rightarrow> TimeoutId \<Rightarrow> nat \<Rightarrow> TimeoutId" where
  "find_free_slot a tid n =
     (if tid < n then
        (if timeout_handler (a ! tid) = None then tid else find_free_slot a (Suc tid) n)
      else tid)"
  by pat_completeness auto
termination
  by (relation "measure (\<lambda>(a, tid, n). n - tid)") auto

definition RegisterTimeout ::
  "platform \<Rightarrow> TimeoutId \<Rightarrow> timeout_handler_proc option \<Rightarrow> timeout_state
     \<Rightarrow> (TimeoutId \<times> timeout_state) outcome" where
  "RegisterTimeout c tid handler s =
     and_then (Assert c (all_timeouts_initialized s) s) (\<lambda>s.
       case (if tid \<ge> USER_TIMEOUT c then
               (let tid' = find_free_slot (all_timeouts s) (USER_TIMEOUT c) (MAX_TIMEOUTS c)
                in if tid' \<ge> MAX_TIMEOUTS c
                   then Inl (FATAL_cannot_add_more_timeout_reasons, s) else Inr tid')
             else Inr tid) of
         Inl e \<Rightarrow> Inl e
       | Inr tid \<Rightarrow>
           and_then (Assert c (timeout_handler (all_timeouts s ! tid) = None) s) (\<lambda>s.
             Inr (tid, s\<lparr>all_timeouts := (all_timeouts s)
                          [tid := (all_timeouts s ! tid)\<lparr>timeout_handler := handler\<rparr>]\<rparr>)))"

definition enable_timeout_after :: "platform \<Rightarrow> TimeoutId \<Rightarrow> int \<Rightarrow> timeout_state \<Rightarrow> timeout_state outcome" where
  "enable_timeout_after c tid delay_ms s =
     and_then (disable_alarm False s) (\<lambda>s.
       case GetCurrentTimestamp s of
         (now, s) \<Rightarrow>
           and_then (enable_timeout c tid now (TimestampTzPlusMilliseconds now delay_ms) s)
             (schedule_alarm c now))"

definition enable_timeout_at :: "platform \<Rightarrow> TimeoutId \<Rightarrow> TimestampTz \<Rightarrow> timeout_state \<Rightarrow> timeout_state outcome" where
  "enable_timeout_at c tid fin s =
     and_then (disable_alarm False s) (\<lambda>s.
       case GetCurrentTimestamp s of
         (now, s) \<Rightarrow> and_then (enable_timeout c tid now fin s) (schedule_alarm c now))"

text \<open>The \<open>for\<close> loop of \<open>enable_timeouts\<close> over the array \<open>timeouts[0 .. count - 1]\<close>.\<close>

primrec enable_each :: "platform \<Rightarrow> TimestampTz \<Rightarrow> EnableTimeoutParams list \<Rightarrow> timeout_state \<Rightarrow> timeout_state outcome" where
  "enable_each c now [] s = Inr s"
| "enable_each c now (t # ts) s =
     and_then
       (case etp_type t of
          TMPARAM_AFTER \<Rightarrow>
            enable_timeout c (etp_id t) now (TimestampTzPlusMilliseconds now (etp_delay_ms t)) s
        | TMPARAM_AT \<Rightarrow> enable_timeout c (etp_id t) now (etp_fin_time t) s
        | TMPARAM_other v \<Rightarrow> Inl (ERROR_unrecognized_timeout_type (TMPARAM_other v), s))
       (enable_each c now ts)"

definition enable_timeouts :: "platform \<Rightarrow> EnableTimeoutParams list \<Rightarrow> timeout_state \<Rightarrow> timeout_state outcome" where
  "enable_timeouts c timeouts s =
     and_then (disable_alarm (length timeouts > 1) s) (\<lambda>s.
       case GetCurrentTimestamp s of
         (now, s) \<Rightarrow> and_then (enable_each c now timeouts s) (schedule_alarm c now))"

text \<open>The tail shared by \<open>disable_timeout\<close> and \<open>disable_timeouts\<close>.\<close>

definition reschedule_if_active :: "platform \<Rightarrow> timeout_state \<Rightarrow> timeout_state outcome" where
  "reschedule_if_active c s =
     (if num_active_timeouts s > 0 then
        (case GetCurrentTimestamp s of (now, s') \<Rightarrow> schedule_alarm c now s')
      else Inr s)"

definition disable_timeout :: "platform \<Rightarrow> TimeoutId \<Rightarrow> bool \<Rightarrow> timeout_state \<Rightarrow> timeout_state outcome" where
  "disable_timeout c tid keep_indicator s =
     and_then (Assert c (all_timeouts_initialized s) s) (\<lambda>s.
     and_then (Assert c (timeout_handler (all_timeouts s ! tid) \<noteq> None) s) (\<lambda>s.
     and_then (disable_alarm False s) (\<lambda>s.
     and_then (remove_if_active tid s) (\<lambda>s.
       reschedule_if_active c
         (if \<not> keep_indicator then
            s\<lparr>all_timeouts := (all_timeouts s)
                 [tid := (all_timeouts s ! tid)\<lparr>indicator := False\<rparr>]\<rparr>
          else s)))))"

primrec disable_each :: "platform \<Rightarrow> DisableTimeoutParams list \<Rightarrow> timeout_state \<Rightarrow> timeout_state outcome" where
  "disable_each c [] s = Inr s"
| "disable_each c (t # ts) s =
     and_then (Assert c (timeout_handler (all_timeouts s ! dtp_id t) \<noteq> None) s) (\<lambda>s.
     and_then (remove_if_active (dtp_id t) s) (\<lambda>s.
       disable_each c ts
         (if \<not> dtp_keep_indicator t then
            s\<lparr>all_timeouts := (all_timeouts s)
                 [dtp_id t := (all_timeouts s ! dtp_id t)\<lparr>indicator := False\<rparr>]\<rparr>
          else s)))"

definition disable_timeouts :: "platform \<Rightarrow> DisableTimeoutParams list \<Rightarrow> timeout_state \<Rightarrow> timeout_state outcome" where
  "disable_timeouts c timeouts s =
     and_then (Assert c (all_timeouts_initialized s) s) (\<lambda>s.
     and_then (disable_alarm False s) (\<lambda>s.
     and_then (disable_each c timeouts s) (reschedule_if_active c)))"

text \<open>The loop \<open>for (i = 0; i < MAX_TIMEOUTS; i++) all_timeouts[i].indicator = false\<close>.\<close>

function clear_indicators :: "timeout_params list \<Rightarrow> nat \<Rightarrow> nat \<Rightarrow> timeout_params list" where
  "clear_indicators a i n =
     (if i < n then clear_indicators (a[i := (a ! i)\<lparr>indicator := False\<rparr>]) (Suc i) n else a)"
  by pat_completeness auto
termination
  by (relation "measure (\<lambda>(a, i, n). n - i)") auto

definition disable_all_timeouts :: "platform \<Rightarrow> bool \<Rightarrow> timeout_state \<Rightarrow> timeout_state outcome" where
  "disable_all_timeouts c keep_indicators s =
     (case setitimer (0, 0) s of
        (rc, s') \<Rightarrow>
          if rc \<noteq> 0 then Inl (FATAL_could_not_disable_SIGALRM_timer, s')
          else
            (let s'' = s'\<lparr>num_active_timeouts := 0\<rparr>
             in Inr (if \<not> keep_indicators then
                       s''\<lparr>all_timeouts := clear_indicators (all_timeouts s'') 0 (MAX_TIMEOUTS c)\<rparr>
                     else s'')))"

definition get_timeout_indicator :: "TimeoutId \<Rightarrow> bool \<Rightarrow> timeout_state \<Rightarrow> bool \<times> timeout_state" where
  "get_timeout_indicator tid reset_indicator s =
     (if indicator (all_timeouts s ! tid) then
        (True,
         if reset_indicator then
           s\<lparr>all_timeouts := (all_timeouts s)[tid := (all_timeouts s ! tid)\<lparr>indicator := False\<rparr>]\<rparr>
         else s)
      else (False, s))"

definition get_timeout_start_time :: "TimeoutId \<Rightarrow> timeout_state \<Rightarrow> TimestampTz" where
  "get_timeout_start_time tid s = start_time (all_timeouts s ! tid)"

text \<open>
  The loop equations are unfolded by hand in the proofs below, one iteration at a time.
\<close>

declare find_active_loop.simps [simp del] insert_shift.simps [simp del]
  remove_shift.simps [simp del] enable_scan.simps [simp del]
  find_free_slot.simps [simp del] clear_indicators.simps [simp del]

text \<open>The equation of the loop of the signal handler is the one the loop is run with.\<close>

declare fire_pending.simps [code]

subsection \<open>The active queue and its invariants\<close>

text \<open>
  The active queue is the first \<open>num_active_timeouts\<close> slots of \<open>active_timeouts\<close>,
  each a pointer to an entry of \<open>all_timeouts\<close>.
\<close>

definition queue :: "timeout_state \<Rightarrow> nat list" where
  "queue s = take (nat (num_active_timeouts s)) (active_timeouts s)"

definition queue_entries :: "timeout_state \<Rightarrow> timeout_params list" where
  "queue_entries s = map (\<lambda>p. all_timeouts s ! p) (queue s)"

text \<open>The lexicographic order on the key \<open>(fin_time, index)\<close>.\<close>

definition key_less :: "timeout_params \<Rightarrow> timeout_params \<Rightarrow> bool" where
  "key_less a b = (fin_time a < fin_time b \<or> (fin_time a = fin_time b \<and> index a < index b))"

definition queue_sorted :: "timeout_state \<Rightarrow> bool" where
  "queue_sorted s = sorted_wrt key_less (queue_entries s)"

definition queue_distinct :: "timeout_state \<Rightarrow> bool" where
  "queue_distinct s = distinct (map index (queue_entries s))"

definition queue_handlers :: "timeout_state \<Rightarrow> bool" where
  "queue_handlers s = list_all (\<lambda>e. timeout_handler e \<noteq> None) (queue_entries s)"

definition queue_bounded :: "platform \<Rightarrow> timeout_state \<Rightarrow> bool" where
  "queue_bounded c s =
     (0 \<le> num_active_timeouts s \<and> num_active_timeouts s \<le> int (MAX_TIMEOUTS c))"

text \<open>
  The module is initialized: the two arrays have their declared length
  \<open>MAX_TIMEOUTS\<close>, \<open>InitializeTimeouts\<close> has run, so that every entry carries its own
  slot number as \<open>index\<close>, and the queue's pointers point into \<open>all_timeouts\<close>.
\<close>

definition module_initialized :: "platform \<Rightarrow> timeout_state \<Rightarrow> bool" where
  "module_initialized c s =
     (all_timeouts_initialized s \<and>
      length (all_timeouts s) = MAX_TIMEOUTS c \<and>
      length (active_timeouts s) = MAX_TIMEOUTS c \<and>
      map index (all_timeouts s) = [0..<MAX_TIMEOUTS c] \<and>
      list_all (\<lambda>p. p < MAX_TIMEOUTS c) (queue s))"

text \<open>
  The same invariants, stated on the arrays: \<open>A\<close> is \<open>all_timeouts\<close>, \<open>q\<close> the queue
  and \<open>M\<close> the constant \<open>MAX_TIMEOUTS\<close>.
\<close>

definition queue_ok :: "nat \<Rightarrow> timeout_params list \<Rightarrow> nat list \<Rightarrow> bool" where
  "queue_ok M A q =
     (length A = M \<and> map index A = [0..<M] \<and> (\<forall>p \<in> set q. p < M) \<and>
      sorted_wrt (\<lambda>x y. key_less (A ! x) (A ! y)) q \<and> distinct q \<and>
      (\<forall>p \<in> set q. timeout_handler (A ! p) \<noteq> None))"

text \<open>The test of the search loop of \<open>enable_timeout\<close>: the new key comes before \<open>old\<close>.\<close>

definition new_before :: "TimestampTz \<Rightarrow> TimeoutId \<Rightarrow> timeout_params \<Rightarrow> bool" where
  "new_before fin tid old = (fin < fin_time old \<or> (fin = fin_time old \<and> tid < index old))"

definition timeouts_inv :: "platform \<Rightarrow> timeout_state \<Rightarrow> bool" where
  "timeouts_inv c s =
     (module_initialized c s \<and> queue_sorted s \<and> queue_distinct s \<and> queue_handlers s \<and>
      queue_bounded c s)"

text \<open>A timeout reason is registered: its slot exists and holds a callback.\<close>

definition registered :: "platform \<Rightarrow> timeout_state \<Rightarrow> TimeoutId \<Rightarrow> bool" where
  "registered c s tid = (tid < MAX_TIMEOUTS c \<and> timeout_handler (all_timeouts s ! tid) \<noteq> None)"

subsection \<open>An example platform and state\<close>

text \<open>
  Modelled from the spec: \<open>TimestampDifference\<close> of utils/adt/timestamp.c is missing from the
  sources. The spec has it give the difference of two timestamps as \<open>(secs, usecs)\<close>, and
  has a deadline in the past lead to the shortest interval, so a difference that is not
  positive is \<open>(0, 0)\<close>. The theorems below hold for every \<open>TimestampDifference\<close>;
  this one serves in the examples, where the callbacks do nothing and return.
\<close>

definition TimestampDifference_usecs :: "TimestampTz \<Rightarrow> TimestampTz \<Rightarrow> int \<times> int" where
  "TimestampDifference_usecs start stop =
     (let diff = stop - start
      in if diff \<le> 0 then (0, 0) else (diff div 1000000, diff mod 1000000))"

definition example_platform :: platform where
  "example_platform =
     \<lparr>MAX_TIMEOUTS = 5, USER_TIMEOUT = 3, USE_ASSERT_CHECKING = True,
      TimestampDifference = TimestampDifference_usecs,
      run_handler = (\<lambda>h s. Some (Inr s))\<rparr>"

text \<open>
  A state with five slots. Reason 0 is registered and idle and has fired before, reasons
  1 and 3 are active and due at 50 and 200, slots 2 and 4 are free. The clock reads 100,
  101, 102, ... and every \<open>setitimer\<close> call succeeds.
\<close>

definition example_state :: timeout_state where
  "example_state =
     \<lparr>all_timeouts =
        [\<lparr>index = 0, indicator = True, timeout_handler = Some 10, start_time = 1, fin_time = 20\<rparr>,
         \<lparr>index = 1, indicator = False, timeout_handler = Some 11, start_time = 5, fin_time = 50\<rparr>,
         \<lparr>index = 2, indicator = False, timeout_handler = None, start_time = 0, fin_time = 0\<rparr>,
         \<lparr>index = 3, indicator = False, timeout_handler = Some 13, start_time = 7, fin_time = 200\<rparr>,
         \<lparr>index = 4, indicator = False, timeout_handler = None, start_time = 0, fin_time = 0\<rparr>],
      all_timeouts_initialized = True,
      num_active_timeouts = 2,
      active_timeouts = [1, 3, 0, 0, 0],
      clock = (\<lambda>n. 100 + int n),
      clock_reads = 0,
      setitimer_rc = (\<lambda>n. 0),
      setitimer_calls = 0,
      MyProc = True,
      trace = []\<rparr>"

subsection \<open>Outcomes of the mutators\<close>

text \<open>
  What no function of the module but \<open>InitializeTimeouts\<close> and \<open>RegisterTimeout\<close> changes:
  the initialization flag, the registered callbacks and the behaviour of the environment.
\<close>

definition stable :: "timeout_state \<Rightarrow> timeout_state \<Rightarrow> bool" where
  "stable s s' =
     (all_timeouts_initialized s' = all_timeouts_initialized s \<and>
      map timeout_handler (all_timeouts s') = map timeout_handler (all_timeouts s) \<and>
      clock s' = clock s \<and> setitimer_rc s' = setitimer_rc s \<and> MyProc s' = MyProc s)"

text \<open>The two FATAL errors raised when \<open>setitimer\<close> fails.\<close>

definition timer_failure :: "error \<Rightarrow> bool" where
  "timer_failure e =
     (e = FATAL_could_not_disable_SIGALRM_timer \<or> e = FATAL_could_not_enable_SIGALRM_timer)"

text \<open>
  A call started in state \<open>s\<close> ends well: it returns, or it ends in a FATAL timer error
  after a \<open>setitimer\<close> call has failed, or (where \<open>types\<close> allows it) in the ERROR for
  an unrecognized timeout type; the state it leaves satisfies the invariants in each case.
\<close>

definition ends_well :: "platform \<Rightarrow> timeout_state \<Rightarrow> bool \<Rightarrow> timeout_state outcome \<Rightarrow> bool" where
  "ends_well c s types r =
     (case r of
        Inr s' \<Rightarrow> timeouts_inv c s' \<and> stable s s'
      | Inl (e, s') \<Rightarrow>
          timeouts_inv c s' \<and> stable s s' \<and>
          ((timer_failure e \<and> (\<exists>n. setitimer_rc s n \<noteq> 0)) \<or>
           (types \<and> (\<exists>t. e = ERROR_unrecognized_timeout_type t))))"

text \<open>
  The call that gave \<open>r\<close> from state \<open>s\<close> has returned, or has ended in a FATAL timer
  error after a failed \<open>setitimer\<close> call, and the state it left has an initialized module
  and satisfies the four queue invariants.
\<close>

definition invariants_hold_after :: "platform \<Rightarrow> timeout_state \<Rightarrow> timeout_state outcome \<Rightarrow> bool" where
  "invariants_hold_after c s r =
     (\<exists>s'. (r = Inr s' \<or>
            (\<exists>e. r = Inl (e, s') \<and> timer_failure e \<and> (\<exists>n. setitimer_rc s n \<noteq> 0))) \<and>
           module_initialized c s' \<and> queue_sorted s' \<and> queue_distinct s' \<and>
           queue_handlers s' \<and> queue_bounded c s')"

text \<open>
  The interval \<open>schedule_alarm(now)\<close> passes to \<open>setitimer\<close> as \<open>(tv_sec, tv_usec)\<close>,
  and the states the two timer calls of the module leave.
\<close>

definition alarm_value :: "platform \<Rightarrow> TimestampTz \<Rightarrow> timeout_state \<Rightarrow> int \<times> int" where
  "alarm_value c now s =
     (case TimestampDifference c now (fin_time (all_timeouts s ! (active_timeouts s ! 0))) of
        (secs, usecs) \<Rightarrow> (secs, if secs = 0 \<and> usecs = 0 then 1 else usecs))"

definition after_setitimer :: "int \<times> int \<Rightarrow> timeout_state \<Rightarrow> timeout_state" where
  "after_setitimer v s =
     s\<lparr>setitimer_calls := Suc (setitimer_calls s),
       trace := trace s @ [Ev_setitimer (fst v) (snd v)]\<rparr>"

definition after_clock_read :: "timeout_state \<Rightarrow> timeout_state" where
  "after_clock_read s =
     s\<lparr>clock_reads := Suc (clock_reads s),
       trace := trace s @ [Ev_GetCurrentTimestamp (clock s (clock_reads s))]\<rparr>"

subsection \<open>The batch of \<open>enable_timeouts\<close>, as the specification words it\<close>

text \<open>
  The time an entry of the batch asks for: \<open>now + delay_ms\<close> for type AFTER, the
  \<open>fin_time\<close> the caller supplied for type AT.
\<close>

definition entry_fin_time :: "TimestampTz \<Rightarrow> EnableTimeoutParams \<Rightarrow> TimestampTz" where
  "entry_fin_time now t =
     (case etp_type t of
        TMPARAM_AFTER \<Rightarrow> TimestampTzPlusMilliseconds now (etp_delay_ms t)
      | TMPARAM_AT \<Rightarrow> etp_fin_time t
      | TMPARAM_other v \<Rightarrow> etp_fin_time t)"

definition known_type :: "EnableTimeoutParams \<Rightarrow> bool" where
  "known_type t = (etp_type t = TMPARAM_AFTER \<or> etp_type t = TMPARAM_AT)"

text \<open>Enabling every entry of a list in turn, each with the time it asks for.\<close>

primrec enable_all :: "platform \<Rightarrow> TimestampTz \<Rightarrow> EnableTimeoutParams list \<Rightarrow> timeout_state \<Rightarrow> timeout_state outcome" where
  "enable_all c now [] s = Inr s"
| "enable_all c now (t # ts) s =
     and_then (enable_timeout c (etp_id t) now (entry_fin_time now t) s) (enable_all c now ts)"

subsection \<open>A run of the signal handler\<close>

text \<open>The callbacks a log shows to have been called, in the order of the calls.\<close>

definition fired_handlers :: "event list \<Rightarrow> timeout_handler_proc list" where
  "fired_handlers tr = concat (map (\<lambda>e. case e of Ev_handler h \<Rightarrow> [h] | _ \<Rightarrow> []) tr)"

text \<open>The registry after the entries \<open>ps\<close> have fired: their indicators are set.\<close>

definition mark_fired :: "nat list \<Rightarrow> timeout_params list \<Rightarrow> timeout_params list" where
  "mark_fired ps A = map (\<lambda>p. if p \<in> set ps then (A ! p)\<lparr>indicator := True\<rparr> else A ! p) [0..<length A]"

text \<open>
  Every callback of the platform returns and keeps out of this module: it leaves the four
  variables of the module and the behaviour of the environment as they are, and calls no
  callback of the module itself. It may read the clock, set the interval timer and log
  what it does.
\<close>

definition handlers_keep_module :: "platform \<Rightarrow> bool" where
  "handlers_keep_module c =
     (\<forall>h s. \<exists>s'. run_handler c h s = Some (Inr s') \<and>
        all_timeouts s' = all_timeouts s \<and>
        all_timeouts_initialized s' = all_timeouts_initialized s \<and>
        num_active_timeouts s' = num_active_timeouts s \<and>
        active_timeouts s' = active_timeouts s \<and>
        clock s' = clock s \<and> setitimer_rc s' = setitimer_rc s \<and> MyProc s' = MyProc s \<and>
        clock_reads s \<le> clock_reads s' \<and>
        fired_handlers (trace s') = fired_handlers (trace s))"

text \<open>
  A platform whose callbacks use the module: the callback of reason 1 (address 11) arms
  reason 0 for time 10 with \<open>enable_timeout_at\<close>; the other callbacks do nothing.
\<close>

definition rearming_platform :: platform where
  "rearming_platform =
     example_platform\<lparr>run_handler :=
       (\<lambda>h s. if h = 11 then Some (enable_timeout_at example_platform 0 10 s) else Some (Inr s))\<rparr>"

text \<open>The state a run has returned with, if it has.\<close>

definition final_state :: "timeout_state outcome option \<Rightarrow> timeout_state option" where
  "final_state r = (case r of Some (Inr s) \<Rightarrow> Some s | _ \<Rightarrow> None)"

section \<open>Properties\<close>

subsection \<open>The shifting loops\<close>

lemma remove_shift_nat:
  "remove_shift a (int i) (int n) =
     (if i < n then remove_shift (a[i - 1 := a ! i]) (int (Suc i)) (int n) else a)"
  by (subst remove_shift.simps) (simp add: nat_diff_distrib' add.commute)

lemma remove_shift_nth:
  "1 \<le> i \<Longrightarrow> n \<le> length a \<Longrightarrow>
   length (remove_shift a (int i) (int n)) = length a \<and>
   (\<forall>j < length a. remove_shift a (int i) (int n) ! j =
       (if i - 1 \<le> j \<and> j < n - 1 then a ! Suc j else a ! j))"
proof (induction "n - i" arbitrary: a i)
  case 0
  then show ?case by (subst remove_shift_nat, subst (2) remove_shift_nat) auto
next
  case (Suc k)
  then have lt: "i < n" by arith
  have *: "k = n - Suc i" using Suc by arith
  note IH = Suc(1)[OF *, of "a[i - 1 := a ! i]"]
  show ?case using lt Suc(3,4) IH
    apply (subst remove_shift_nat, subst (2) remove_shift_nat)
    apply (auto simp: nth_list_update)
    done
qed

lemma insert_shift_nat:
  "insert_shift a (int m - 1) (int idx) =
     (if idx < m then insert_shift (a[m := a ! (m - 1)]) (int (m - 1) - 1) (int idx) else a)"
  apply (subst insert_shift.simps)
  apply (auto simp: nat_diff_distrib' )
  done

lemma insert_shift_nth:
  "idx \<le> m \<Longrightarrow> m < length a \<Longrightarrow>
   length (insert_shift a (int m - 1) (int idx)) = length a \<and>
   (\<forall>j < length a. insert_shift a (int m - 1) (int idx) ! j =
       (if idx < j \<and> j \<le> m then a ! (j - 1) else a ! j))"
proof (induction "m - idx" arbitrary: a m)
  case 0
  then show ?case by (subst insert_shift_nat, subst (2) insert_shift_nat) auto
next
  case (Suc k)
  then have lt: "idx < m" by arith
  have *: "k = (m - 1) - idx" using Suc by arith
  have **: "idx \<le> m - 1" using lt by arith
  have ***: "m - 1 < length (a[m := a ! (m - 1)])" using Suc by simp
  note IH = Suc(1)[OF * ** ***]
  show ?case using lt Suc(3,4) IH
    apply (subst insert_shift_nat, subst (2) insert_shift_nat)
    apply (auto simp: nth_list_update)
    done
qed

subsection \<open>The search loops\<close>

lemma find_active_loop_nat:
  "find_active_loop s tid (int i) =
     (if int i < num_active_timeouts s then
        (if index (all_timeouts s ! (active_timeouts s ! i)) = tid then int i
         else find_active_loop s tid (int (Suc i)))
      else - 1)"
  by (subst find_active_loop.simps) (simp add: add.commute)

lemma find_active_loop_spec:
  "find_active_loop s tid (int i) = r \<Longrightarrow>
   (r = - 1 \<and> (\<forall>j. i \<le> j \<and> int j < num_active_timeouts s \<longrightarrow>
                  index (all_timeouts s ! (active_timeouts s ! j)) \<noteq> tid)) \<or>
   (int i \<le> r \<and> r < num_active_timeouts s \<and>
      index (all_timeouts s ! (active_timeouts s ! nat r)) = tid \<and>
      (\<forall>j. i \<le> j \<and> int j < r \<longrightarrow>
                  index (all_timeouts s ! (active_timeouts s ! j)) \<noteq> tid))"
proof (induction "nat (num_active_timeouts s - int i)" arbitrary: i)
  case 0
  then show ?case by (subst (asm) find_active_loop_nat) auto
next
  case (Suc k)
  then have lt: "int i < num_active_timeouts s" by arith
  have *: "k = nat (num_active_timeouts s - int (Suc i))" using Suc by arith
  show ?case
  proof (cases "index (all_timeouts s ! (active_timeouts s ! i)) = tid")
    case True
    then show ?thesis using lt Suc(3) by (subst (asm) find_active_loop_nat) auto
  next
    case False
    then have "find_active_loop s tid (int (Suc i)) = r"
      using lt Suc(3) by (subst (asm) find_active_loop_nat) auto
    from Suc(1)[OF * this] False show ?thesis
      apply (elim disjE)
       apply (rule disjI1)
       apply (metis Suc_leI le_neq_implies_less)
      apply (rule disjI2)
      apply (auto)
      apply (metis Suc_leI le_neq_implies_less)
      done
  qed
qed

lemma enable_scan_nat:
  "enable_scan s tid fin (int i) =
     (if int i < num_active_timeouts s then
        (let old_timeout = all_timeouts s ! (active_timeouts s ! i) in
         if fin < fin_time old_timeout then int i
         else if fin = fin_time old_timeout \<and> tid < index old_timeout then int i
         else enable_scan s tid fin (int (Suc i)))
      else int i)"
  by (subst enable_scan.simps) (simp add: add.commute Let_def)

lemma enable_scan_spec:
  "int i \<le> num_active_timeouts s \<Longrightarrow> enable_scan s tid fin (int i) = r \<Longrightarrow>
   int i \<le> r \<and> r \<le> num_active_timeouts s \<and>
   (\<forall>j. i \<le> j \<and> int j < r \<longrightarrow> \<not> new_before fin tid (all_timeouts s ! (active_timeouts s ! j))) \<and>
   (r < num_active_timeouts s \<longrightarrow> new_before fin tid (all_timeouts s ! (active_timeouts s ! nat r)))"
proof (induction "nat (num_active_timeouts s - int i)" arbitrary: i)
  case 0
  then show ?case by (subst (asm) enable_scan_nat) auto
next
  case (Suc k)
  then have lt: "int i < num_active_timeouts s" by arith
  have *: "k = nat (num_active_timeouts s - int (Suc i))" using Suc by arith
  have **: "int (Suc i) \<le> num_active_timeouts s" using lt by arith
  show ?case
  proof (cases "new_before fin tid (all_timeouts s ! (active_timeouts s ! i))")
    case True
    then have "r = int i" using lt Suc(4)
      by (subst (asm) enable_scan_nat) (auto simp: new_before_def Let_def split: if_splits)
    then show ?thesis using True lt by auto
  next
    case False
    then have "enable_scan s tid fin (int (Suc i)) = r"
      using lt Suc(4) by (subst (asm) enable_scan_nat) (auto simp: new_before_def Let_def split: if_splits)
    from Suc(1)[OF * ** this] False show ?thesis
      apply (auto)
       apply (metis Suc_leI le_neq_implies_less)+
      done
  qed
qed

subsection \<open>Removing from and inserting into the queue\<close>

lemma length_queue:
  "num_active_timeouts s \<le> int (length (active_timeouts s)) \<Longrightarrow>
   length (queue s) = nat (num_active_timeouts s)"
  by (simp add: queue_def)

lemma queue_nth:
  "int j < num_active_timeouts s \<Longrightarrow> queue s ! j = active_timeouts s ! j"
  by (simp add: queue_def)

lemma remove_timeout_index_queue:
  assumes "0 \<le> idx" "idx < num_active_timeouts s"
    "num_active_timeouts s \<le> int (length (active_timeouts s))"
  shows "\<exists>a'. remove_timeout_index idx s =
           Inr (s\<lparr>active_timeouts := a', num_active_timeouts := num_active_timeouts s - 1\<rparr>) \<and>
         length a' = length (active_timeouts s) \<and>
         take (nat (num_active_timeouts s - 1)) a' =
           take (nat idx) (queue s) @ drop (Suc (nat idx)) (queue s)"
proof -
  define i where "i = nat idx"
  define n where "n = nat (num_active_timeouts s)"
  define a where "a = active_timeouts s"
  have idx: "idx = int i" and n: "num_active_timeouts s = int n"
    using assms by (simp_all add: i_def n_def)
  have in': "i < n" "n \<le> length a" using assms by (simp_all add: i_def n_def a_def)
  define r where "r = remove_shift a (int (Suc i)) (int n)"
  have r: "length r = length a"
    "\<And>j. j < length a \<Longrightarrow> r ! j = (if i \<le> j \<and> j < n - 1 then a ! Suc j else a ! j)"
    using remove_shift_nth[of "Suc i" n a] in' by (simp_all add: r_def)
  have "take (n - 1) r = take i (take n a) @ drop (Suc i) (take n a)"
  proof (rule nth_equalityI)
    show "length (take (n - 1) r) = length (take i (take n a) @ drop (Suc i) (take n a))"
      using in' r(1) by simp
  next
    fix j assume "j < length (take (n - 1) r)"
    then have j: "j < n - 1" by simp
    then have ja: "j < length a" "Suc j < n" using in' by simp_all
    show "take (n - 1) r ! j = (take i (take n a) @ drop (Suc i) (take n a)) ! j"
    proof (cases "j < i")
      case True
      then show ?thesis using j ja in' r(2)[OF ja(1)] by (simp add: nth_append)
    next
      case False
      then have "Suc i + (j - i) = Suc j" by simp
      then show ?thesis using False j ja in' r(2)[OF ja(1)] by (simp add: nth_append)
    qed
  qed
  moreover have "remove_timeout_index idx s =
      Inr (s\<lparr>active_timeouts := r, num_active_timeouts := num_active_timeouts s - 1\<rparr>)"
    using in' by (simp add: remove_timeout_index_def idx n r_def a_def add.commute)
  ultimately show ?thesis
    using r(1) by (auto simp: queue_def n a_def idx nat_diff_distrib')
qed

lemma insert_timeout_queue:
  assumes "0 \<le> idx" "idx \<le> num_active_timeouts s"
    "num_active_timeouts s < int (length (active_timeouts s))"
  shows "\<exists>a'. insert_timeout tid idx s =
           Inr (s\<lparr>active_timeouts := a', num_active_timeouts := num_active_timeouts s + 1\<rparr>) \<and>
         length a' = length (active_timeouts s) \<and>
         take (nat (num_active_timeouts s + 1)) a' =
           take (nat idx) (queue s) @ tid # drop (nat idx) (queue s)"
proof -
  define i where "i = nat idx"
  define n where "n = nat (num_active_timeouts s)"
  define a where "a = active_timeouts s"
  have idx: "idx = int i" and n: "num_active_timeouts s = int n"
    using assms by (simp_all add: i_def n_def)
  have in': "i \<le> n" "n < length a" using assms by (simp_all add: i_def n_def a_def)
  define r where "r = insert_shift a (int n - 1) (int i)"
  have r: "length r = length a"
    "\<And>j. j < length a \<Longrightarrow> r ! j = (if i < j \<and> j \<le> n then a ! (j - 1) else a ! j)"
    using insert_shift_nth[of i n a] in' by (simp_all add: r_def)
  have "take (Suc n) (r[i := tid]) = take i (take n a) @ tid # drop i (take n a)"
  proof (rule nth_equalityI)
    show "length (take (Suc n) (r[i := tid])) = length (take i (take n a) @ tid # drop i (take n a))"
      using in' r(1) by simp
  next
    fix j assume "j < length (take (Suc n) (r[i := tid]))"
    then have j: "j < Suc n" by simp
    then have ja: "j < length a" using in' by simp
    show "take (Suc n) (r[i := tid]) ! j = (take i (take n a) @ tid # drop i (take n a)) ! j"
    proof (cases "j < i")
      case True
      then show ?thesis using j ja in' r(1) r(2)[OF ja] by (simp add: nth_append)
    next
      case False
      show ?thesis
      proof (cases "j = i")
        case True
        then show ?thesis using j ja in' r(1) by (simp add: nth_append)
      next
        case ne: False
        then have gt: "i < j" using False by simp
        then have "i + (j - Suc i) = j - 1" by simp
        then show ?thesis using gt j ja in' r(1) r(2)[OF ja]
          by (simp add: nth_append nth_Cons')
      qed
    qed
  qed
  moreover have "insert_timeout tid idx s =
      Inr (s\<lparr>active_timeouts := r[i := tid], num_active_timeouts := num_active_timeouts s + 1\<rparr>)"
    using in' by (simp add: insert_timeout_def idx n r_def a_def)
  ultimately show ?thesis
    using r(1) by (auto simp: queue_def n a_def idx nat_add_distrib)
qed

subsection \<open>The invariants on the arrays\<close>

lemma index_slot: "map index A = [0..<M] \<Longrightarrow> p < M \<Longrightarrow> index (A ! p) = p"
proof -
  assume a: "map index A = [0..<M]" and p: "p < M"
  have "length A = M" using a by (metis length_map length_upt minus_nat.diff_0)
  then have "map index A ! p = index (A ! p)" using p by simp
  then show ?thesis using a p by simp
qed

lemma map_index_queue:
  assumes "map index A = [0..<M]" "\<forall>p \<in> set q. p < M"
  shows "map index (map (\<lambda>p. A ! p) q) = q"
  using assms by (auto simp: map_idI index_slot)

lemma timeouts_inv_alt:
  "timeouts_inv c s \<longleftrightarrow>
     all_timeouts_initialized s \<and> length (active_timeouts s) = MAX_TIMEOUTS c \<and>
     0 \<le> num_active_timeouts s \<and> num_active_timeouts s \<le> int (MAX_TIMEOUTS c) \<and>
     queue_ok (MAX_TIMEOUTS c) (all_timeouts s) (queue s)"
proof (cases "map index (all_timeouts s) = [0..<MAX_TIMEOUTS c] \<and>
              (\<forall>p \<in> set (queue s). p < MAX_TIMEOUTS c)")
  case True
  then have "map index (queue_entries s) = queue s"
    unfolding queue_entries_def by (intro map_index_queue) auto
  then show ?thesis
    unfolding timeouts_inv_def module_initialized_def queue_sorted_def queue_distinct_def
      queue_handlers_def queue_bounded_def queue_ok_def
    by (auto simp: queue_entries_def sorted_wrt_map list_all_iff)
next
  case False
  then show ?thesis
    unfolding timeouts_inv_def module_initialized_def queue_ok_def
    by (auto simp: list_all_iff)
qed

lemma queue_ok_removeAll: "queue_ok M A q \<Longrightarrow> queue_ok M A (removeAll tid q)"
  by (auto simp: queue_ok_def removeAll_filter_not_eq sorted_wrt_filter)

lemma queue_ok_Nil: "length A = M \<Longrightarrow> map index A = [0..<M] \<Longrightarrow> queue_ok M A []"
  by (simp add: queue_ok_def)

lemma InitializeTimeouts_inv:
  assumes "length (active_timeouts s) = MAX_TIMEOUTS c"
  shows "timeouts_inv c (InitializeTimeouts c s)"
  using assms
  by (simp add: timeouts_inv_alt InitializeTimeouts_def queue_def queue_ok_def comp_def map_idI)

lemma queue_ok_update:
  assumes "queue_ok M A q" "tid < M" "index e = tid"
    and "tid \<in> set q \<Longrightarrow> fin_time e = fin_time (A ! tid) \<and> timeout_handler e \<noteq> None"
  shows "queue_ok M (A[tid := e]) q"
proof -
  let ?A = "A[tid := e]"
  have len: "length A = M" and idx: "map index A = [0..<M]"
    using assms(1) by (simp_all add: queue_ok_def)
  have qM: "\<And>x. x \<in> set q \<Longrightarrow> x < M" using assms(1) by (simp add: queue_ok_def)
  have "map index ?A = (map index A)[tid := tid]"
    using assms(3) by (simp add: map_update)
  also have "\<dots> = [0..<M]" using idx assms(2) by (simp add: list_update_same_conv)
  finally have i': "map index ?A = [0..<M]" .
  have same: "fin_time (?A ! x) = fin_time (A ! x) \<and> index (?A ! x) = index (A ! x) \<and>
      (timeout_handler (A ! x) \<noteq> None \<longrightarrow> timeout_handler (?A ! x) \<noteq> None)"
    if "x \<in> set q" for x
  proof (cases "x = tid")
    case True
    then show ?thesis using that assms(2,3,4) len idx by (simp add: index_slot)
  next
    case False
    then show ?thesis by simp
  qed
  have "sorted_wrt (\<lambda>x y. key_less (A ! x) (A ! y)) q" using assms(1) by (simp add: queue_ok_def)
  then have "sorted_wrt (\<lambda>x y. key_less (?A ! x) (?A ! y)) q"
  proof (rule sorted_wrt_mono_rel[rotated])
    fix x y assume "x \<in> set q" "y \<in> set q" "key_less (A ! x) (A ! y)"
    then show "key_less (?A ! x) (?A ! y)" using same[of x] same[of y] by (simp add: key_less_def)
  qed
  moreover have "\<forall>p \<in> set q. timeout_handler (?A ! p) \<noteq> None"
  proof
    fix p assume "p \<in> set q"
    then show "timeout_handler (?A ! p) \<noteq> None"
      using same[of p] assms(1) by (simp add: queue_ok_def)
  qed
  ultimately show ?thesis using assms(1) i' by (simp add: queue_ok_def)
qed

lemma queue_ok_length:
  assumes "queue_ok M A q" "tid < M" "tid \<notin> set q"
  shows "length q < M"
proof -
  have "set q \<subseteq> {0..<M} - {tid}" using assms by (auto simp: queue_ok_def)
  then have "card (set q) \<le> card ({0..<M} - {tid})" by (intro card_mono) auto
  also have "\<dots> = M - 1" using assms(2) by simp
  finally show ?thesis using assms(1,2) by (simp add: queue_ok_def distinct_card)
qed

lemma queue_ok_length_le:
  assumes "queue_ok M A q"
  shows "length q \<le> M"
proof -
  have "set q \<subseteq> {0..<M}" using assms by (auto simp: queue_ok_def)
  then have "card (set q) \<le> card {0..<M}" by (intro card_mono) auto
  then show ?thesis using assms by (simp add: queue_ok_def distinct_card)
qed

lemma key_less_trans: "key_less a b \<Longrightarrow> key_less b c \<Longrightarrow> key_less a c"
  by (auto simp: key_less_def)

lemma queue_ok_insert:
  assumes ok: "queue_ok M A q" and tid: "tid < M" "tid \<notin> set q"
    and h: "timeout_handler (A ! tid) \<noteq> None"
    and p: "p \<le> length q"
    and before: "\<forall>j < p. \<not> new_before (fin_time (A ! tid)) tid (A ! (q ! j))"
    and after: "p < length q \<longrightarrow> new_before (fin_time (A ! tid)) tid (A ! (q ! p))"
  shows "queue_ok M A (take p q @ tid # drop p q)"
proof -
  let ?R = "\<lambda>x y. key_less (A ! x) (A ! y)"
  have idx: "\<And>x. x < M \<Longrightarrow> index (A ! x) = x"
    using ok by (simp add: queue_ok_def index_slot)
  have qM: "\<And>x. x \<in> set q \<Longrightarrow> x < M" using ok by (simp add: queue_ok_def)
  have sorted: "sorted_wrt ?R q" using ok by (simp add: queue_ok_def)
  have "sorted_wrt ?R (take p q @ drop p q)" using sorted by simp
  then have s1: "sorted_wrt ?R (take p q)" "sorted_wrt ?R (drop p q)"
    "\<forall>x \<in> set (take p q). \<forall>y \<in> set (drop p q). ?R x y"
    unfolding sorted_wrt_append by blast+
  have lo: "?R x tid" if "x \<in> set (take p q)" for x
  proof -
    from that obtain j where j: "j < p" "j < length q" "x = q ! j"
      by (auto simp: in_set_conv_nth)
    then have xq: "x \<in> set q" by simp
    then have ne: "x \<noteq> tid" using tid by auto
    from before j have "\<not> new_before (fin_time (A ! tid)) tid (A ! x)" by simp
    then show ?thesis using ne idx[OF qM[OF xq]] idx[OF tid(1)]
      by (auto simp: new_before_def key_less_def)
  qed
  have hi: "?R tid y" if "y \<in> set (drop p q)" for y
  proof -
    from that obtain k where k: "k < length q - p" "y = q ! (p + k)"
      by (auto simp: in_set_conv_nth)
    then have pl: "p < length q" by simp
    with after have nb: "?R tid (q ! p)"
      using idx[OF tid(1)] by (auto simp: new_before_def key_less_def)
    show ?thesis
    proof (cases k)
      case 0
      then show ?thesis using nb k by simp
    next
      case (Suc k')
      then have "?R (q ! p) (q ! (p + k))" using sorted k
        by (simp add: sorted_wrt_iff_nth_less)
      then show ?thesis using nb k key_less_trans by blast
    qed
  qed
  have "sorted_wrt ?R (take p q @ tid # drop p q)"
    using s1 lo hi by (simp add: sorted_wrt_append)
  moreover have "distinct (take p q @ tid # drop p q)"
  proof -
    have d: "distinct q" using ok by (simp add: queue_ok_def)
    then have "set (take p q) \<inter> set (drop p q) = {}"
      by (rule set_take_disj_set_drop_if_distinct) simp
    moreover have "tid \<notin> set (take p q)" "tid \<notin> set (drop p q)"
      using tid(2) by (auto dest: in_set_takeD in_set_dropD)
    ultimately show ?thesis using d by simp
  qed
  moreover have "\<forall>x \<in> set (take p q @ tid # drop p q). x < M \<and> timeout_handler (A ! x) \<noteq> None"
    using ok tid h by (auto simp: queue_ok_def dest: in_set_takeD in_set_dropD)
  ultimately show ?thesis using ok by (simp add: queue_ok_def)
qed

subsection \<open>Cancelling an active timeout\<close>

lemma and_then_Inr [simp]: "and_then (Inr s) f = f s"
  by (simp add: and_then_def)

lemma and_then_Inl [simp]: "and_then (Inl e) f = Inl e"
  by (simp add: and_then_def)

lemma Assert_True [simp]: "Assert c True s = Inr s"
  by (simp add: Assert_def)

lemma take_drop_removeAll:
  assumes "distinct q" "r < length q"
  shows "take r q @ drop (Suc r) q = removeAll (q ! r) q"
proof -
  have q: "q = take r q @ q ! r # drop (Suc r) q" using assms(2) by (rule id_take_nth_drop)
  have "distinct (take r q @ q ! r # drop (Suc r) q)" using assms(1) q by simp
  then have "q ! r \<notin> set (take r q)" "q ! r \<notin> set (drop (Suc r) q)" by auto
  then have "removeAll (q ! r) (take r q @ q ! r # drop (Suc r) q) = take r q @ drop (Suc r) q"
    by (simp)
  then show ?thesis using q by simp
qed

lemma remove_if_active_spec:
  assumes inv: "timeouts_inv c s"
  shows "\<exists>a' n'. remove_if_active tid s =
            Inr (s\<lparr>active_timeouts := a', num_active_timeouts := n'\<rparr>) \<and>
          length a' = MAX_TIMEOUTS c \<and> 0 \<le> n' \<and> n' \<le> num_active_timeouts s \<and>
          take (nat n') a' = removeAll tid (queue s) \<and>
          (tid \<notin> set (queue s) \<longrightarrow> a' = active_timeouts s \<and> n' = num_active_timeouts s)"
proof -
  let ?A = "all_timeouts s" and ?a = "active_timeouts s" and ?n = "num_active_timeouts s"
  let ?M = "MAX_TIMEOUTS c"
  from inv have len: "length ?a = ?M" and n: "0 \<le> ?n" "?n \<le> int ?M"
    and ok: "queue_ok ?M ?A (queue s)" by (simp_all add: timeouts_inv_alt)
  have lq: "length (queue s) = nat ?n" using len n by (simp add: queue_def)
  have slot: "index (?A ! (?a ! j)) = ?a ! j" if "int j < ?n" for j
  proof -
    have "queue s ! j \<in> set (queue s)" using that lq by simp
    then have "queue s ! j < ?M" using ok by (simp add: queue_ok_def)
    then show ?thesis using ok that by (simp add: queue_ok_def index_slot queue_nth)
  qed
  define r where "r = find_active_loop s tid (int 0)"
  from find_active_loop_spec[OF r_def[symmetric]]
  consider (none) "r = - 1" "\<forall>j. int j < ?n \<longrightarrow> index (?A ! (?a ! j)) \<noteq> tid"
    | (found) "0 \<le> r" "r < ?n" "index (?A ! (?a ! nat r)) = tid"
    by auto
  then show ?thesis
  proof cases
    case none
    have "tid \<notin> set (queue s)"
    proof
      assume "tid \<in> set (queue s)"
      then obtain j where j: "j < length (queue s)" "queue s ! j = tid"
        by (auto simp: in_set_conv_nth)
      then have jn: "int j < ?n" using lq by simp
      then have "index (?A ! (?a ! j)) = tid" using slot[of j] j by (simp add: queue_nth)
      then show False using none(2) jn by blast
    qed
    then have "removeAll tid (queue s) = queue s" by simp
    then show ?thesis using none(1) n
      by (intro exI[of _ ?a] exI[of _ ?n])
         (simp add: remove_if_active_def find_active_timeout_def r_def[simplified, symmetric] len queue_def)
  next
    case found
    then have rn: "int (nat r) < ?n" by simp
    have qr: "queue s ! nat r = tid" using slot[OF rn] found(3) rn by (simp add: queue_nth)
    from remove_timeout_index_queue[OF found(1,2)] len n obtain a' where
      a': "remove_timeout_index r s = Inr (s\<lparr>active_timeouts := a', num_active_timeouts := ?n - 1\<rparr>)"
        "length a' = length ?a"
        "take (nat (?n - 1)) a' = take (nat r) (queue s) @ drop (Suc (nat r)) (queue s)"
      by auto
    have rl: "nat r < length (queue s)" using found(1,2) lq by simp
    have dq: "distinct (queue s)" using ok by (simp add: queue_ok_def)
    have "take (nat r) (queue s) @ drop (Suc (nat r)) (queue s) = removeAll tid (queue s)"
      using take_drop_removeAll[OF dq rl] qr by simp
    moreover have "tid \<in> set (queue s)" using qr rl nth_mem by blast
    ultimately show ?thesis using a' found len
      by (intro exI[of _ a'] exI[of _ "?n - 1"])
         (simp add: remove_if_active_def find_active_timeout_def r_def[simplified, symmetric])
  qed
qed

subsection \<open>Enabling a timeout\<close>

lemma queue_update_simps [simp]:
  "queue (s\<lparr>all_timeouts := A\<rparr>) = queue s"
  "queue (s\<lparr>active_timeouts := a, num_active_timeouts := n\<rparr>) = take (nat n) a"
  "queue (s\<lparr>trace := tr\<rparr>) = queue s"
  "queue (s\<lparr>clock_reads := k\<rparr>) = queue s"
  "queue (s\<lparr>setitimer_calls := k\<rparr>) = queue s"
  by (simp_all add: queue_def)

lemma timeouts_inv_removed:
  assumes "timeouts_inv c s" "length a' = MAX_TIMEOUTS c" "0 \<le> n'" "n' \<le> num_active_timeouts s"
    "take (nat n') a' = removeAll tid (queue s)"
  shows "timeouts_inv c (s\<lparr>active_timeouts := a', num_active_timeouts := n'\<rparr>)"
  using assms by (simp add: timeouts_inv_alt queue_ok_removeAll)

lemma enable_timeout_spec:
  assumes inv: "timeouts_inv c s" and reg: "registered c s tid"
  shows "\<exists>a' n'.
     enable_timeout c tid now fin s =
       Inr (s\<lparr>all_timeouts := (all_timeouts s)
                 [tid := (all_timeouts s ! tid)\<lparr>indicator := False, start_time := now, fin_time := fin\<rparr>],
              active_timeouts := a', num_active_timeouts := n'\<rparr>) \<and>
     timeouts_inv c
       (s\<lparr>all_timeouts := (all_timeouts s)
                 [tid := (all_timeouts s ! tid)\<lparr>indicator := False, start_time := now, fin_time := fin\<rparr>],
              active_timeouts := a', num_active_timeouts := n'\<rparr>) \<and>
     set (take (nat n') a') = insert tid (set (queue s))"
proof -
  let ?M = "MAX_TIMEOUTS c" and ?A = "all_timeouts s"
  define e where "e = (?A ! tid)\<lparr>indicator := False, start_time := now, fin_time := fin\<rparr>"
  define A' where "A' = ?A[tid := e]"
  from reg have tid: "tid < ?M" and h: "timeout_handler (?A ! tid) \<noteq> None"
    by (simp_all add: registered_def)
  from inv have init: "all_timeouts_initialized s" and lenA: "length ?A = ?M"
    by (simp_all add: timeouts_inv_alt queue_ok_def)
  from remove_if_active_spec[OF inv, of tid] obtain a1 n1 where
    rm: "remove_if_active tid s = Inr (s\<lparr>active_timeouts := a1, num_active_timeouts := n1\<rparr>)"
    and a1: "length a1 = ?M" "0 \<le> n1" "n1 \<le> num_active_timeouts s"
      "take (nat n1) a1 = removeAll tid (queue s)"
    by blast
  define s1 where "s1 = s\<lparr>active_timeouts := a1, num_active_timeouts := n1\<rparr>"
  define q1 where "q1 = removeAll tid (queue s)"
  have inv1: "timeouts_inv c s1" unfolding s1_def using inv a1 by (rule timeouts_inv_removed)
  have q1: "queue s1 = q1" by (simp add: s1_def q1_def a1)
  have ok1: "queue_ok ?M ?A q1" using inv1 q1 by (simp add: timeouts_inv_alt s1_def)
  have notin: "tid \<notin> set q1" by (simp add: q1_def)
  have "n1 \<le> int ?M" using a1(3) inv by (simp add: timeouts_inv_alt)
  then have "length (take (nat n1) a1) = nat n1" using a1(1,2) by simp
  then have lq1: "length q1 = nat n1" by (simp add: q1_def a1(4))
  have n1M: "n1 < int ?M" using queue_ok_length[OF ok1 tid notin] lq1 a1(2) by simp
  define p where "p = enable_scan s1 tid fin (int 0)"
  have sc: "0 \<le> p" "p \<le> n1"
    "\<forall>j. int j < p \<longrightarrow> \<not> new_before fin tid (?A ! (a1 ! j))"
    "p < n1 \<longrightarrow> new_before fin tid (?A ! (a1 ! nat p))"
    using enable_scan_spec[of 0 s1 tid fin p] a1(2) by (simp_all add: p_def s1_def)
  define s2 where "s2 = s1\<lparr>all_timeouts := A'\<rparr>"
  have "num_active_timeouts s2 = n1" "length (active_timeouts s2) = ?M" "queue s2 = q1"
    using q1 by (simp_all add: s2_def s1_def a1)
  with insert_timeout_queue[of p s2 tid] sc n1M obtain a' where
    ins: "insert_timeout tid p s2 = Inr (s2\<lparr>active_timeouts := a', num_active_timeouts := n1 + 1\<rparr>)"
      "length a' = ?M" "take (nat (n1 + 1)) a' = take (nat p) q1 @ tid # drop (nat p) q1"
    by auto
  have okA': "queue_ok ?M A' q1" unfolding A'_def
    using ok1 tid notin by (intro queue_ok_update) (simp_all add: e_def lenA index_slot queue_ok_def)
  have A'tid: "A' ! tid = e" using tid lenA by (simp add: A'_def)
  have A'q: "A' ! x = ?A ! x" if "x \<in> set q1" for x
  proof -
    have "tid \<noteq> x" using that notin by blast
    then show ?thesis by (simp add: A'_def)
  qed
  have qnth: "q1 ! j = a1 ! j" if "int j < n1" for j
    using that a1(4)[symmetric] by (simp add: q1_def)
  have "queue_ok ?M A' (take (nat p) q1 @ tid # drop (nat p) q1)"
  proof (rule queue_ok_insert[OF okA' tid notin])
    show "timeout_handler (A' ! tid) \<noteq> None" using h by (simp add: A'tid e_def)
    show "nat p \<le> length q1" using sc lq1 by simp
    show "\<forall>j < nat p. \<not> new_before (fin_time (A' ! tid)) tid (A' ! (q1 ! j))"
    proof (intro allI impI)
      fix j assume j: "j < nat p"
      then have jn: "int j < n1" "int j < p" using sc by simp_all
      then have "q1 ! j \<in> set q1" using lq1 by simp
      then show "\<not> new_before (fin_time (A' ! tid)) tid (A' ! (q1 ! j))"
        using sc(3) jn by (simp add: A'q A'tid e_def qnth)
    qed
    show "nat p < length q1 \<longrightarrow> new_before (fin_time (A' ! tid)) tid (A' ! (q1 ! nat p))"
    proof
      assume pl: "nat p < length q1"
      then have pn: "p < n1" "int (nat p) < n1" using lq1 sc by simp_all
      have "q1 ! nat p \<in> set q1" using pl by simp
      then show "new_before (fin_time (A' ! tid)) tid (A' ! (q1 ! nat p))"
        using sc(4) pn by (simp add: A'q A'tid e_def qnth)
    qed
  qed
  then have inv': "timeouts_inv c (s2\<lparr>active_timeouts := a', num_active_timeouts := n1 + 1\<rparr>)"
    using ins(2,3) init n1M a1(2) by (simp add: timeouts_inv_alt s2_def s1_def)
  have res: "enable_timeout c tid now fin s =
      Inr (s2\<lparr>active_timeouts := a', num_active_timeouts := n1 + 1\<rparr>)"
    using init h rm ins(1)
    by (simp add: enable_timeout_def p_def s2_def s1_def A'_def e_def Let_def)
  have "set (take (nat (n1 + 1)) a') = insert tid (set q1)"
    unfolding ins(3) using set_append[of "take (nat p) q1" "drop (nat p) q1"] by auto
  then have mem: "set (take (nat (n1 + 1)) a') = insert tid (set (queue s))"
    by (auto simp: q1_def)
  show ?thesis
    using res inv' mem
    by (intro exI[of _ a'] exI[of _ "n1 + 1"]) (simp add: s2_def s1_def A'_def e_def)
qed

subsection \<open>The loops over the registry\<close>

lemma clear_indicators_nth:
  "n \<le> length a \<Longrightarrow>
   length (clear_indicators a i n) = length a \<and>
   (\<forall>j < length a. clear_indicators a i n ! j =
       (if i \<le> j \<and> j < n then (a ! j)\<lparr>indicator := False\<rparr> else a ! j))"
proof (induction "n - i" arbitrary: a i)
  case 0
  then show ?case by (subst clear_indicators.simps, subst (2) clear_indicators.simps) auto
next
  case (Suc k)
  then have lt: "i < n" by arith
  have *: "k = n - Suc i" using Suc by arith
  have **: "n \<le> length (a[i := (a ! i)\<lparr>indicator := False\<rparr>])" using Suc by simp
  note IH = Suc(1)[OF * **]
  show ?case using lt Suc(3) IH
    apply (subst clear_indicators.simps, subst (2) clear_indicators.simps)
    apply (auto simp: nth_list_update)
    done
qed

lemma clear_indicators_map:
  "clear_indicators a 0 (length a) = map (\<lambda>e. e\<lparr>indicator := False\<rparr>) a"
  using clear_indicators_nth[of "length a" a 0] by (intro nth_equalityI) auto

lemma find_free_slot_spec:
  "find_free_slot a i n = r \<Longrightarrow> i \<le> n \<Longrightarrow>
   i \<le> r \<and> r \<le> n \<and> (\<forall>j. i \<le> j \<and> j < r \<longrightarrow> timeout_handler (a ! j) \<noteq> None) \<and>
   (r < n \<longrightarrow> timeout_handler (a ! r) = None)"
proof (induction "n - i" arbitrary: i)
  case 0
  then show ?case by (subst (asm) find_free_slot.simps) auto
next
  case (Suc k)
  then have lt: "i < n" by arith
  have *: "k = n - Suc i" using Suc by arith
  show ?case
  proof (cases "timeout_handler (a ! i) = None")
    case True
    then have "r = i" using lt Suc(3) by (subst (asm) find_free_slot.simps) auto
    then show ?thesis using True lt by auto
  next
    case False
    then have "find_free_slot a (Suc i) n = r"
      using lt Suc(3) by (subst (asm) find_free_slot.simps) auto
    from Suc(1)[OF * this] lt False show ?thesis
      apply auto
       apply (metis Suc_leI le_neq_implies_less option.distinct(1))+
      done
  qed
qed

subsection \<open>Composition of outcomes\<close>

lemma stable_refl [simp]: "stable s s"
  by (simp add: stable_def)

lemma stable_trans: "stable s s' \<Longrightarrow> stable s' s'' \<Longrightarrow> stable s s''"
  by (simp add: stable_def)

lemma stable_env [simp]:
  "stable s (s'\<lparr>trace := tr\<rparr>) = stable s s'"
  "stable s (s'\<lparr>clock_reads := k\<rparr>) = stable s s'"
  "stable s (s'\<lparr>setitimer_calls := k\<rparr>) = stable s s'"
  "stable s (s'\<lparr>active_timeouts := a\<rparr>) = stable s s'"
  "stable s (s'\<lparr>num_active_timeouts := n\<rparr>) = stable s s'"
  "stable (s\<lparr>trace := tr\<rparr>) s' = stable s s'"
  "stable (s\<lparr>clock_reads := k\<rparr>) s' = stable s s'"
  "stable (s\<lparr>setitimer_calls := k\<rparr>) s' = stable s s'"
  "stable (s\<lparr>active_timeouts := a\<rparr>) s' = stable s s'"
  "stable (s\<lparr>num_active_timeouts := n\<rparr>) s' = stable s s'"
  by (simp_all add: stable_def)

lemma map_update_same:
  "(map f xs)[i := f (xs ! i)] = map f xs"
  by (metis list_update_id map_update)

lemma stable_update:
  "timeout_handler e = timeout_handler (all_timeouts s' ! tid) \<Longrightarrow>
   stable s (s'\<lparr>all_timeouts := (all_timeouts s')[tid := e]\<rparr>) = stable s s'"
  by (simp add: stable_def map_update map_update_same)

lemma stable_registered:
  assumes "stable s s'" "length (all_timeouts s) = MAX_TIMEOUTS c"
  shows "registered c s' tid = registered c s tid"
proof (cases "tid < MAX_TIMEOUTS c")
  case True
  from assms(1) have m: "map timeout_handler (all_timeouts s') = map timeout_handler (all_timeouts s)"
    by (simp add: stable_def)
  then have len: "length (all_timeouts s') = length (all_timeouts s)" by (metis length_map)
  have "timeout_handler (all_timeouts s' ! tid) = timeout_handler (all_timeouts s ! tid)"
    using m len True assms(2) by (metis nth_map)
  then show ?thesis by (simp add: registered_def)
next
  case False
  then show ?thesis by (simp add: registered_def)
qed

lemma inv_env [simp]:
  "timeouts_inv c (s\<lparr>trace := tr\<rparr>) = timeouts_inv c s"
  "timeouts_inv c (s\<lparr>clock_reads := k\<rparr>) = timeouts_inv c s"
  "timeouts_inv c (s\<lparr>setitimer_calls := k\<rparr>) = timeouts_inv c s"
  by (simp_all add: timeouts_inv_alt)

lemma ends_well_Inr [simp]:
  "ends_well c s types (Inr s') = (timeouts_inv c s' \<and> stable s s')"
  by (simp add: ends_well_def)

lemma ends_well_and_then:
  assumes "ends_well c s types r"
    and "\<And>s'. r = Inr s' \<Longrightarrow> timeouts_inv c s' \<Longrightarrow> stable s s' \<Longrightarrow> ends_well c s' types (f s')"
  shows "ends_well c s types (and_then r f)"
proof (cases r)
  case (Inl x)
  then show ?thesis using assms(1) by simp
next
  case (Inr s')
  with assms(1) have a: "timeouts_inv c s'" "stable s s'" by simp_all
  from assms(2)[OF Inr a] have e: "ends_well c s' types (f s')" .
  have rc: "setitimer_rc s' = setitimer_rc s" using a(2) by (simp add: stable_def)
  show ?thesis using Inr e a(2) rc
    by (auto simp: ends_well_def split: sum.splits intro: stable_trans)
qed

lemma ends_well_disable_alarm:
  "timeouts_inv c s \<Longrightarrow> ends_well c s types (disable_alarm multi_insert s)"
  by (auto simp: disable_alarm_def setitimer_def ends_well_def timer_failure_def)

lemma ends_well_schedule_alarm:
  "timeouts_inv c s \<Longrightarrow> ends_well c s types (schedule_alarm c now s)"
  by (auto simp: schedule_alarm_def setitimer_def ends_well_def timer_failure_def
           split: prod.splits)

lemma ends_well_reschedule_if_active:
  "timeouts_inv c s \<Longrightarrow> ends_well c s types (reschedule_if_active c s)"
  by (auto simp: reschedule_if_active_def GetCurrentTimestamp_def schedule_alarm_def
        setitimer_def ends_well_def timer_failure_def Let_def split: prod.splits)

lemma remove_if_active_ok:
  assumes "timeouts_inv c s"
  shows "\<exists>s'. remove_if_active tid s = Inr s' \<and> timeouts_inv c s' \<and> stable s s' \<and>
           queue s' = removeAll tid (queue s) \<and> all_timeouts s' = all_timeouts s \<and>
           trace s' = trace s \<and> clock_reads s' = clock_reads s \<and>
           setitimer_calls s' = setitimer_calls s \<and>
           (tid \<notin> set (queue s) \<longrightarrow> s' = s)"
proof -
  from remove_if_active_spec[OF assms, of tid] obtain a' n' where
    r: "remove_if_active tid s = Inr (s\<lparr>active_timeouts := a', num_active_timeouts := n'\<rparr>)"
    and a: "length a' = MAX_TIMEOUTS c" "0 \<le> n'" "n' \<le> num_active_timeouts s"
      "take (nat n') a' = removeAll tid (queue s)"
      "tid \<notin> set (queue s) \<longrightarrow> a' = active_timeouts s \<and> n' = num_active_timeouts s"
    by blast
  have "timeouts_inv c (s\<lparr>active_timeouts := a', num_active_timeouts := n'\<rparr>)"
    using assms a(1-4) by (rule timeouts_inv_removed)
  then show ?thesis using r a by (intro exI[of _ "s\<lparr>active_timeouts := a', num_active_timeouts := n'\<rparr>"]) auto
qed

lemma enable_timeout_ok:
  assumes "timeouts_inv c s" "registered c s tid"
  shows "\<exists>s'. enable_timeout c tid now fin s = Inr s' \<and> timeouts_inv c s' \<and> stable s s' \<and>
           set (queue s') = insert tid (set (queue s)) \<and>
           all_timeouts s' = (all_timeouts s)
             [tid := (all_timeouts s ! tid)\<lparr>indicator := False, start_time := now, fin_time := fin\<rparr>] \<and>
           trace s' = trace s \<and> clock_reads s' = clock_reads s \<and>
           setitimer_calls s' = setitimer_calls s"
proof -
  from enable_timeout_spec[OF assms, of now fin] obtain a' n' where
    r: "enable_timeout c tid now fin s =
       Inr (s\<lparr>all_timeouts := (all_timeouts s)
                 [tid := (all_timeouts s ! tid)\<lparr>indicator := False, start_time := now, fin_time := fin\<rparr>],
              active_timeouts := a', num_active_timeouts := n'\<rparr>)"
     "timeouts_inv c
       (s\<lparr>all_timeouts := (all_timeouts s)
                 [tid := (all_timeouts s ! tid)\<lparr>indicator := False, start_time := now, fin_time := fin\<rparr>],
              active_timeouts := a', num_active_timeouts := n'\<rparr>)"
     "set (take (nat n') a') = insert tid (set (queue s))"
    by blast
  show ?thesis
    apply (rule exI, rule conjI, rule r(1))
    using r(2,3) by (simp add: stable_update)
qed

lemma ends_well_env [simp]:
  "ends_well c (s\<lparr>trace := tr\<rparr>) types r = ends_well c s types r"
  "ends_well c (s\<lparr>clock_reads := k\<rparr>) types r = ends_well c s types r"
  "ends_well c (s\<lparr>setitimer_calls := k\<rparr>) types r = ends_well c s types r"
  by (auto simp: ends_well_def split: sum.splits)

lemma registered_env [simp]:
  "registered c (s\<lparr>trace := tr\<rparr>) tid = registered c s tid"
  "registered c (s\<lparr>clock_reads := k\<rparr>) tid = registered c s tid"
  "registered c (s\<lparr>setitimer_calls := k\<rparr>) tid = registered c s tid"
  by (simp_all add: registered_def)

lemma inv_length: "timeouts_inv c s \<Longrightarrow> length (all_timeouts s) = MAX_TIMEOUTS c"
  by (simp add: timeouts_inv_alt queue_ok_def)

lemma inv_initialized: "timeouts_inv c s \<Longrightarrow> all_timeouts_initialized s"
  by (simp add: timeouts_inv_alt)

lemma ends_well_enable_timeout:
  "timeouts_inv c s \<Longrightarrow> registered c s tid \<Longrightarrow>
   ends_well c s types (enable_timeout c tid now fin s)"
  using enable_timeout_ok[of c s tid now fin] by auto

lemma ends_well_weaken: "ends_well c s False r \<Longrightarrow> ends_well c s types r"
  by (auto simp: ends_well_def split: sum.splits)

lemma ends_well_enable_then_schedule:
  assumes "timeouts_inv c s" "registered c s tid"
  shows "ends_well c s types (and_then (enable_timeout c tid now fin s) (schedule_alarm c now'))"
  using assms
  by (intro ends_well_and_then ends_well_enable_timeout ends_well_schedule_alarm)

lemma ends_well_enable_timeout_after:
  assumes "timeouts_inv c s" "registered c s tid"
  shows "ends_well c s types (enable_timeout_after c tid delay_ms s)"
  unfolding enable_timeout_after_def
proof (rule ends_well_and_then[OF ends_well_disable_alarm[OF assms(1)]])
  fix s' assume "timeouts_inv c s'" "stable s s'"
  moreover from this have "registered c s' tid"
    using assms stable_registered inv_length by blast
  ultimately show "ends_well c s' types
       (case GetCurrentTimestamp s' of
          (now, s) \<Rightarrow> and_then (enable_timeout c tid now (TimestampTzPlusMilliseconds now delay_ms) s)
                       (schedule_alarm c now))"
    using ends_well_enable_then_schedule[of c "s'\<lparr>clock_reads := Suc (clock_reads s'),
           trace := trace s' @ [Ev_GetCurrentTimestamp (clock s' (clock_reads s'))]\<rparr>" tid types]
    by (simp add: GetCurrentTimestamp_def Let_def)
qed

lemma ends_well_enable_timeout_at:
  assumes "timeouts_inv c s" "registered c s tid"
  shows "ends_well c s types (enable_timeout_at c tid fin s)"
  unfolding enable_timeout_at_def
proof (rule ends_well_and_then[OF ends_well_disable_alarm[OF assms(1)]])
  fix s' assume "timeouts_inv c s'" "stable s s'"
  moreover from this have "registered c s' tid"
    using assms stable_registered inv_length by blast
  ultimately show "ends_well c s' types
       (case GetCurrentTimestamp s' of
          (now, s) \<Rightarrow> and_then (enable_timeout c tid now fin s) (schedule_alarm c now))"
    using ends_well_enable_then_schedule[of c "s'\<lparr>clock_reads := Suc (clock_reads s'),
           trace := trace s' @ [Ev_GetCurrentTimestamp (clock s' (clock_reads s'))]\<rparr>" tid types]
    by (simp add: GetCurrentTimestamp_def Let_def)
qed

lemma ends_well_enable_each:
  assumes "timeouts_inv c s" "\<forall>t \<in> set ts. registered c s (etp_id t)"
    "\<not> types \<longrightarrow> (\<forall>t \<in> set ts. etp_type t = TMPARAM_AFTER \<or> etp_type t = TMPARAM_AT)"
  shows "ends_well c s types (enable_each c now ts s)"
  using assms
proof (induction ts arbitrary: s)
  case Nil
  then show ?case by simp
next
  case (Cons t ts)
  have first: "ends_well c s types
       (case etp_type t of
          TMPARAM_AFTER \<Rightarrow>
            enable_timeout c (etp_id t) now (TimestampTzPlusMilliseconds now (etp_delay_ms t)) s
        | TMPARAM_AT \<Rightarrow> enable_timeout c (etp_id t) now (etp_fin_time t) s
        | TMPARAM_other v \<Rightarrow> Inl (ERROR_unrecognized_timeout_type (TMPARAM_other v), s))"
  proof (cases "etp_type t")
    case TMPARAM_AFTER
    then show ?thesis using Cons.prems by (simp add: ends_well_enable_timeout)
  next
    case TMPARAM_AT
    then show ?thesis using Cons.prems by (simp add: ends_well_enable_timeout)
  next
    case (TMPARAM_other v)
    then show ?thesis using Cons.prems by (auto simp: ends_well_def)
  qed
  show ?case
    unfolding enable_each.simps
  proof (rule ends_well_and_then[OF first])
    fix s' assume s': "timeouts_inv c s'" "stable s s'"
    then have "\<forall>t \<in> set ts. registered c s' (etp_id t)"
      using Cons.prems(1,2) stable_registered inv_length by (metis list.set_intros(2))
    then show "ends_well c s' types (enable_each c now ts s')"
      using Cons.IH[OF s'(1)] Cons.prems(3) by simp
  qed
qed

lemma ends_well_enable_timeouts:
  assumes "timeouts_inv c s" "\<forall>t \<in> set ts. registered c s (etp_id t)"
    "\<not> types \<longrightarrow> (\<forall>t \<in> set ts. etp_type t = TMPARAM_AFTER \<or> etp_type t = TMPARAM_AT)"
  shows "ends_well c s types (enable_timeouts c ts s)"
  unfolding enable_timeouts_def
proof (rule ends_well_and_then[OF ends_well_disable_alarm[OF assms(1)]])
  fix s' assume s': "timeouts_inv c s'" "stable s s'"
  define s'' where "s'' = s'\<lparr>clock_reads := Suc (clock_reads s'),
           trace := trace s' @ [Ev_GetCurrentTimestamp (clock s' (clock_reads s'))]\<rparr>"
  have reg: "\<forall>t \<in> set ts. registered c s'' (etp_id t)"
    using s' assms(1,2) stable_registered inv_length by (simp add: s''_def)
  have inv'': "timeouts_inv c s''" using s'(1) by (simp add: s''_def)
  have "ends_well c s'' types
     (and_then (enable_each c (clock s' (clock_reads s')) ts s'') (schedule_alarm c (clock s' (clock_reads s'))))"
    using inv'' reg assms(3)
    by (intro ends_well_and_then ends_well_enable_each ends_well_schedule_alarm)
  then show "ends_well c s' types
       (case GetCurrentTimestamp s' of
          (now, s) \<Rightarrow> and_then (enable_each c now ts s) (schedule_alarm c now))"
    by (simp add: GetCurrentTimestamp_def Let_def s''_def)
qed

lemma inv_update_indicator:
  assumes "timeouts_inv c s" "tid < MAX_TIMEOUTS c"
  shows "timeouts_inv c (s\<lparr>all_timeouts := (all_timeouts s)
            [tid := (all_timeouts s ! tid)\<lparr>indicator := b\<rparr>]\<rparr>)"
proof -
  from assms(1) have ok: "queue_ok (MAX_TIMEOUTS c) (all_timeouts s) (queue s)"
    by (simp add: timeouts_inv_alt)
  have "queue_ok (MAX_TIMEOUTS c)
      ((all_timeouts s)[tid := (all_timeouts s ! tid)\<lparr>indicator := b\<rparr>]) (queue s)"
    using ok assms(2) by (intro queue_ok_update) (auto simp: queue_ok_def index_slot)
  then show ?thesis using assms(1) by (simp add: timeouts_inv_alt)
qed

lemma clear_indicator_ok:
  assumes "timeouts_inv c s" "tid < MAX_TIMEOUTS c" "stable s0 s"
  shows "timeouts_inv c (if \<not> keep then s\<lparr>all_timeouts := (all_timeouts s)
            [tid := (all_timeouts s ! tid)\<lparr>indicator := False\<rparr>]\<rparr> else s) \<and>
         stable s0 (if \<not> keep then s\<lparr>all_timeouts := (all_timeouts s)
            [tid := (all_timeouts s ! tid)\<lparr>indicator := False\<rparr>]\<rparr> else s)"
  using assms by (simp add: inv_update_indicator stable_update)

lemma ends_well_stable:
  "ends_well c s' types r \<Longrightarrow> stable s s' \<Longrightarrow> ends_well c s types r"
  by (auto simp: ends_well_def stable_def split: sum.splits)

lemma ends_well_disable_timeout:
  assumes "timeouts_inv c s" "registered c s tid"
  shows "ends_well c s types (disable_timeout c tid keep_indicator s)"
proof -
  have tid: "tid < MAX_TIMEOUTS c" and h: "timeout_handler (all_timeouts s ! tid) \<noteq> None"
    using assms(2) by (simp_all add: registered_def)
  have "ends_well c s types
     (and_then (disable_alarm False s) (\<lambda>s.
      and_then (remove_if_active tid s) (\<lambda>s.
        reschedule_if_active c
          (if \<not> keep_indicator then
             s\<lparr>all_timeouts := (all_timeouts s)
                  [tid := (all_timeouts s ! tid)\<lparr>indicator := False\<rparr>]\<rparr>
           else s))))"
  proof (rule ends_well_and_then[OF ends_well_disable_alarm[OF assms(1)]])
    fix s1 assume s1: "timeouts_inv c s1" "stable s s1"
    from remove_if_active_ok[OF s1(1), of tid] obtain s2 where
      s2: "remove_if_active tid s1 = Inr s2" "timeouts_inv c s2" "stable s1 s2" by blast
    let ?s3 = "if \<not> keep_indicator then
             s2\<lparr>all_timeouts := (all_timeouts s2)
                  [tid := (all_timeouts s2 ! tid)\<lparr>indicator := False\<rparr>]\<rparr>
           else s2"
    from clear_indicator_ok[OF s2(2) tid s2(3), of keep_indicator]
    have s3: "timeouts_inv c ?s3" "stable s1 ?s3" by simp_all
    have "ends_well c ?s3 types (reschedule_if_active c ?s3)"
      using s3(1) by (rule ends_well_reschedule_if_active)
    then have "ends_well c s1 types (reschedule_if_active c ?s3)"
      using s3(2) by (rule ends_well_stable)
    then show "ends_well c s1 types
        (and_then (remove_if_active tid s1) (\<lambda>s.
        reschedule_if_active c
          (if \<not> keep_indicator then
             s\<lparr>all_timeouts := (all_timeouts s)
                  [tid := (all_timeouts s ! tid)\<lparr>indicator := False\<rparr>]\<rparr>
           else s)))"
      by (simp add: s2(1))
  qed
  then show ?thesis using h inv_initialized[OF assms(1)] by (simp add: disable_timeout_def)
qed

lemma ends_well_disable_each:
  assumes "timeouts_inv c s" "\<forall>t \<in> set ts. registered c s (dtp_id t)"
  shows "ends_well c s types (disable_each c ts s)"
  using assms
proof (induction ts arbitrary: s)
  case Nil
  then show ?case by simp
next
  case (Cons t ts)
  have tid: "dtp_id t < MAX_TIMEOUTS c" and h: "timeout_handler (all_timeouts s ! dtp_id t) \<noteq> None"
    using Cons.prems(2) by (simp_all add: registered_def)
  from remove_if_active_ok[OF Cons.prems(1), of "dtp_id t"] obtain s2 where
    s2: "remove_if_active (dtp_id t) s = Inr s2" "timeouts_inv c s2" "stable s s2" by blast
  let ?s3 = "if \<not> dtp_keep_indicator t then
             s2\<lparr>all_timeouts := (all_timeouts s2)
                  [dtp_id t := (all_timeouts s2 ! dtp_id t)\<lparr>indicator := False\<rparr>]\<rparr>
           else s2"
  from clear_indicator_ok[OF s2(2) tid s2(3), of "dtp_keep_indicator t"]
  have s3: "timeouts_inv c ?s3" "stable s ?s3" by simp_all
  have "\<forall>t \<in> set ts. registered c ?s3 (dtp_id t)"
    using Cons.prems stable_registered[OF s3(2) inv_length[OF Cons.prems(1)]] by simp
  from Cons.IH[OF s3(1) this] have "ends_well c ?s3 types (disable_each c ts ?s3)" .
  then have "ends_well c s types (disable_each c ts ?s3)" using s3(2) by (rule ends_well_stable)
  then show ?case using h s2(1) by simp
qed

lemma ends_well_disable_timeouts:
  assumes "timeouts_inv c s" "\<forall>t \<in> set ts. registered c s (dtp_id t)"
  shows "ends_well c s types (disable_timeouts c ts s)"
proof -
  have "ends_well c s types
     (and_then (disable_alarm False s) (\<lambda>s.
      and_then (disable_each c ts s) (reschedule_if_active c)))"
  proof (rule ends_well_and_then[OF ends_well_disable_alarm[OF assms(1)]])
    fix s1 assume s1: "timeouts_inv c s1" "stable s s1"
    then have "\<forall>t \<in> set ts. registered c s1 (dtp_id t)"
      using assms stable_registered inv_length by blast
    then show "ends_well c s1 types (and_then (disable_each c ts s1) (reschedule_if_active c))"
      using s1(1)
      by (intro ends_well_and_then ends_well_disable_each ends_well_reschedule_if_active)
  qed
  then show ?thesis using inv_initialized[OF assms(1)] by (simp add: disable_timeouts_def)
qed

lemma ends_well_disable_all_timeouts:
  assumes "timeouts_inv c s"
  shows "ends_well c s types (disable_all_timeouts c keep_indicators s)"
proof -
  let ?A = "all_timeouts s" and ?M = "MAX_TIMEOUTS c"
  from assms have len: "length ?A = ?M" and idx: "map index ?A = [0..<?M]"
    by (simp_all add: timeouts_inv_alt queue_ok_def)
  have cl: "clear_indicators ?A 0 ?M = map (\<lambda>e. e\<lparr>indicator := False\<rparr>) ?A"
    using clear_indicators_map[of ?A] len by simp
  have ok: "queue_ok ?M (map (\<lambda>e. e\<lparr>indicator := False\<rparr>) ?A) []" "queue_ok ?M ?A []"
    using len idx by (simp_all add: queue_ok_Nil comp_def)
  show ?thesis using assms ok
    by (auto simp: disable_all_timeouts_def setitimer_def ends_well_def timer_failure_def cl
          timeouts_inv_alt stable_def comp_def Let_def queue_def)
qed

lemma ends_well_invariants_hold:
  "ends_well c s False r \<Longrightarrow> invariants_hold_after c s r"
  by (cases r) (auto simp: ends_well_def invariants_hold_after_def timeouts_inv_def)

lemma ends_well_state:
  "ends_well c s True r \<Longrightarrow> \<exists>s'. (r = Inr s' \<or> (\<exists>e. r = Inl (e, s'))) \<and> timeouts_inv c s'"
  by (cases r) (auto simp: ends_well_def)

subsection \<open>The timer calls, spelled out\<close>

lemma GetCurrentTimestamp_eq:
  "GetCurrentTimestamp s = (clock s (clock_reads s), after_clock_read s)"
  by (simp add: GetCurrentTimestamp_def after_clock_read_def Let_def)

lemma disable_alarm_eq:
  "disable_alarm m s =
     (if m \<or> num_active_timeouts s > 0 then
        (if setitimer_rc s (setitimer_calls s) = 0 then Inr (after_setitimer (0, 0) s)
         else Inl (FATAL_could_not_disable_SIGALRM_timer, after_setitimer (0, 0) s))
      else Inr s)"
  by (simp add: disable_alarm_def setitimer_def after_setitimer_def)

lemma schedule_alarm_eq:
  "schedule_alarm c now s =
     (if num_active_timeouts s > 0 then
        (if setitimer_rc s (setitimer_calls s) = 0 then Inr (after_setitimer (alarm_value c now s) s)
         else Inl (FATAL_could_not_enable_SIGALRM_timer, after_setitimer (alarm_value c now s) s))
      else Inr s)"
  by (simp add: schedule_alarm_def setitimer_def after_setitimer_def alarm_value_def
           split: prod.splits)

lemma after_simps [simp]:
  "all_timeouts (after_setitimer v s) = all_timeouts s"
  "all_timeouts_initialized (after_setitimer v s) = all_timeouts_initialized s"
  "num_active_timeouts (after_setitimer v s) = num_active_timeouts s"
  "active_timeouts (after_setitimer v s) = active_timeouts s"
  "clock (after_setitimer v s) = clock s"
  "clock_reads (after_setitimer v s) = clock_reads s"
  "setitimer_rc (after_setitimer v s) = setitimer_rc s"
  "setitimer_calls (after_setitimer v s) = Suc (setitimer_calls s)"
  "MyProc (after_setitimer v s) = MyProc s"
  "trace (after_setitimer v s) = trace s @ [Ev_setitimer (fst v) (snd v)]"
  "all_timeouts (after_clock_read s) = all_timeouts s"
  "all_timeouts_initialized (after_clock_read s) = all_timeouts_initialized s"
  "num_active_timeouts (after_clock_read s) = num_active_timeouts s"
  "active_timeouts (after_clock_read s) = active_timeouts s"
  "clock (after_clock_read s) = clock s"
  "clock_reads (after_clock_read s) = Suc (clock_reads s)"
  "setitimer_rc (after_clock_read s) = setitimer_rc s"
  "setitimer_calls (after_clock_read s) = setitimer_calls s"
  "MyProc (after_clock_read s) = MyProc s"
  "trace (after_clock_read s) = trace s @ [Ev_GetCurrentTimestamp (clock s (clock_reads s))]"
  by (simp_all add: after_setitimer_def after_clock_read_def)

lemma after_inv [simp]:
  "timeouts_inv c (after_setitimer v s) = timeouts_inv c s"
  "timeouts_inv c (after_clock_read s) = timeouts_inv c s"
  "registered c (after_setitimer v s) tid = registered c s tid"
  "registered c (after_clock_read s) tid = registered c s tid"
  "queue (after_setitimer v s) = queue s"
  "queue (after_clock_read s) = queue s"
  "stable s0 (after_setitimer v s) = stable s0 s"
  "stable s0 (after_clock_read s) = stable s0 s"
  by (simp_all add: after_setitimer_def after_clock_read_def)

lemma enable_timeout_at_ok:
  assumes inv: "timeouts_inv c s" and reg: "registered c s tid"
    and os: "\<forall>n. setitimer_rc s n = 0"
  shows "\<exists>s'. enable_timeout_at c tid fin s = Inr s' \<and> timeouts_inv c s' \<and> stable s s' \<and>
           set (queue s') = insert tid (set (queue s)) \<and>
           all_timeouts s' = (all_timeouts s)
             [tid := (all_timeouts s ! tid)
                \<lparr>indicator := False, start_time := clock s (clock_reads s), fin_time := fin\<rparr>] \<and>
           clock_reads s' = Suc (clock_reads s)"
proof -
  define s1 where "s1 = (if num_active_timeouts s > 0 then after_setitimer (0, 0) s else s)"
  define s2 where "s2 = after_clock_read s1"
  have d: "disable_alarm False s = Inr s1" using os by (simp add: disable_alarm_eq s1_def)
  have s2: "timeouts_inv c s2" "registered c s2 tid" "stable s s2" "queue s2 = queue s"
    "all_timeouts s2 = all_timeouts s" "clock_reads s2 = Suc (clock_reads s)"
    "clock s1 (clock_reads s1) = clock s (clock_reads s)" "setitimer_rc s2 = setitimer_rc s"
    using inv reg by (simp_all add: s2_def s1_def)
  from enable_timeout_ok[OF s2(1,2), of "clock s (clock_reads s)" fin] obtain s3 where
    s3: "enable_timeout c tid (clock s (clock_reads s)) fin s2 = Inr s3" "timeouts_inv c s3"
      "stable s2 s3" "set (queue s3) = insert tid (set (queue s2))"
      "all_timeouts s3 = (all_timeouts s2)
             [tid := (all_timeouts s2 ! tid)
                \<lparr>indicator := False, start_time := clock s (clock_reads s), fin_time := fin\<rparr>]"
      "clock_reads s3 = clock_reads s2"
    by blast
  have rc3: "setitimer_rc s3 = setitimer_rc s" using s3(3) s2(8) by (simp add: stable_def)
  define s4 where "s4 = (if num_active_timeouts s3 > 0
      then after_setitimer (alarm_value c (clock s (clock_reads s)) s3) s3 else s3)"
  have "schedule_alarm c (clock s (clock_reads s)) s3 = Inr s4"
    using os rc3 by (simp add: schedule_alarm_eq s4_def)
  then have "enable_timeout_at c tid fin s = Inr s4"
    using d s3(1) s2(7) by (simp add: enable_timeout_at_def GetCurrentTimestamp_eq s2_def)
  moreover have "timeouts_inv c s4" "stable s s4" "set (queue s4) = insert tid (set (queue s))"
    "all_timeouts s4 = (all_timeouts s)
             [tid := (all_timeouts s ! tid)
                \<lparr>indicator := False, start_time := clock s (clock_reads s), fin_time := fin\<rparr>]"
    "clock_reads s4 = Suc (clock_reads s)"
    using s3 s2 stable_trans[OF s2(3) s3(3)] by (simp_all add: s4_def)
  ultimately show ?thesis by blast
qed

subsection \<open>Disabling a timeout\<close>

lemma disable_timeout_ok:
  assumes inv: "timeouts_inv c s" and reg: "registered c s tid"
    and os: "\<forall>n. setitimer_rc s n = 0"
  shows "\<exists>s'. disable_timeout c tid keep s = Inr s' \<and> timeouts_inv c s' \<and> stable s s' \<and>
           queue s' = removeAll tid (queue s) \<and>
           all_timeouts s' =
             (if keep then all_timeouts s
              else (all_timeouts s)[tid := (all_timeouts s ! tid)\<lparr>indicator := False\<rparr>]) \<and>
           (tid \<notin> set (queue s) \<longrightarrow>
              active_timeouts s' = active_timeouts s \<and>
              num_active_timeouts s' = num_active_timeouts s)"
proof -
  have tid: "tid < MAX_TIMEOUTS c" and h: "timeout_handler (all_timeouts s ! tid) \<noteq> None"
    using reg by (simp_all add: registered_def)
  define s1 where "s1 = (if num_active_timeouts s > 0 then after_setitimer (0, 0) s else s)"
  have d: "disable_alarm False s = Inr s1" using os by (simp add: disable_alarm_eq s1_def)
  have s1: "timeouts_inv c s1" "stable s s1" "queue s1 = queue s"
    "all_timeouts s1 = all_timeouts s" "active_timeouts s1 = active_timeouts s"
    "num_active_timeouts s1 = num_active_timeouts s"
    using inv by (simp_all add: s1_def)
  from remove_if_active_ok[OF s1(1), of tid] obtain s2 where
    s2: "remove_if_active tid s1 = Inr s2" "timeouts_inv c s2" "stable s1 s2"
      "queue s2 = removeAll tid (queue s1)" "all_timeouts s2 = all_timeouts s1"
      "tid \<notin> set (queue s1) \<longrightarrow> s2 = s1"
    by blast
  define s3 where "s3 = (if \<not> keep then
             s2\<lparr>all_timeouts := (all_timeouts s2)
                  [tid := (all_timeouts s2 ! tid)\<lparr>indicator := False\<rparr>]\<rparr>
           else s2)"
  from clear_indicator_ok[OF s2(2) tid stable_trans[OF s1(2) s2(3)], of keep]
  have s3: "timeouts_inv c s3" "stable s s3" by (simp_all add: s3_def)
  have s3': "queue s3 = queue s2" "active_timeouts s3 = active_timeouts s2"
    "num_active_timeouts s3 = num_active_timeouts s2"
    "all_timeouts s3 = (if keep then all_timeouts s
              else (all_timeouts s)[tid := (all_timeouts s ! tid)\<lparr>indicator := False\<rparr>])"
    using s2(5) s1(4) by (simp_all add: s3_def)
  have rc3: "setitimer_rc s3 = setitimer_rc s" using s3(2) by (simp add: stable_def)
  define s4 where "s4 = (if num_active_timeouts s3 > 0
     then after_setitimer (alarm_value c (clock s3 (clock_reads s3)) (after_clock_read s3))
            (after_clock_read s3)
     else s3)"
  have "reschedule_if_active c s3 = Inr s4"
    using os rc3
    by (simp add: reschedule_if_active_def GetCurrentTimestamp_eq schedule_alarm_eq s4_def)
  then have "disable_timeout c tid keep s = Inr s4"
    using h inv_initialized[OF inv] d s2(1) by (simp add: disable_timeout_def s3_def)
  moreover have "timeouts_inv c s4" "stable s s4" "queue s4 = removeAll tid (queue s)"
    "all_timeouts s4 = (if keep then all_timeouts s
              else (all_timeouts s)[tid := (all_timeouts s ! tid)\<lparr>indicator := False\<rparr>])"
    using s3 s3' s2(4) s1(3) by (simp_all add: s4_def)
  moreover have "tid \<notin> set (queue s) \<longrightarrow>
              active_timeouts s4 = active_timeouts s \<and>
              num_active_timeouts s4 = num_active_timeouts s"
    using s2(6) s1(3,5,6) s3'(2,3) by (simp add: s4_def)
  ultimately show ?thesis by blast
qed

subsection \<open>Enabling a batch\<close>

lemma enable_each_known:
  "\<forall>t \<in> set ts. known_type t \<Longrightarrow> enable_each c now ts s = enable_all c now ts s"
proof (induction ts arbitrary: s)
  case Nil
  then show ?case by simp
next
  case (Cons t ts)
  then have "enable_each c now ts = enable_all c now ts" by auto
  then show ?case using Cons.prems
    by (auto simp: known_type_def entry_fin_time_def)
qed

lemma and_then_assoc:
  "and_then (and_then r f) g = and_then r (\<lambda>s. and_then (f s) g)"
  by (cases r) simp_all

lemma enable_each_append:
  "enable_each c now (pre @ post) s = and_then (enable_each c now pre s) (enable_each c now post)"
proof (induction pre arbitrary: s)
  case Nil
  then show ?case by simp
next
  case (Cons t pre)
  then have "enable_each c now (pre @ post) = (\<lambda>s. and_then (enable_each c now pre s) (enable_each c now post))"
    by auto
  then show ?case by (simp add: and_then_assoc)
qed

lemma enable_all_ok:
  assumes "timeouts_inv c s" "\<forall>t \<in> set ts. registered c s (etp_id t)"
  shows "\<exists>s'. enable_all c now ts s = Inr s' \<and> timeouts_inv c s' \<and> stable s s' \<and>
           set (queue s') = set (queue s) \<union> etp_id ` set ts \<and>
           trace s' = trace s \<and> clock_reads s' = clock_reads s \<and>
           setitimer_calls s' = setitimer_calls s \<and>
           (\<forall>t \<in> set ts. start_time (all_timeouts s' ! etp_id t) = now \<and>
                          indicator (all_timeouts s' ! etp_id t) = False) \<and>
           (distinct (map etp_id ts) \<longrightarrow>
              (\<forall>t \<in> set ts. fin_time (all_timeouts s' ! etp_id t) = entry_fin_time now t)) \<and>
           (\<forall>k. k \<notin> etp_id ` set ts \<longrightarrow> all_timeouts s' ! k = all_timeouts s ! k)"
  using assms
proof (induction ts arbitrary: s)
  case Nil
  then show ?case by simp
next
  case (Cons t ts)
  let ?e = "(all_timeouts s ! etp_id t)
      \<lparr>indicator := False, start_time := now, fin_time := entry_fin_time now t\<rparr>"
  have reg: "registered c s (etp_id t)" using Cons.prems(2) by simp
  then have len: "etp_id t < length (all_timeouts s)"
    using Cons.prems(1) by (simp add: registered_def inv_length)
  from enable_timeout_ok[OF Cons.prems(1) reg, of now "entry_fin_time now t"] obtain s1 where
    s1: "enable_timeout c (etp_id t) now (entry_fin_time now t) s = Inr s1"
      "timeouts_inv c s1" "stable s s1" "set (queue s1) = insert (etp_id t) (set (queue s))"
      "all_timeouts s1 = (all_timeouts s)[etp_id t := ?e]"
      "trace s1 = trace s" "clock_reads s1 = clock_reads s" "setitimer_calls s1 = setitimer_calls s"
    by blast
  have reg1: "\<forall>u \<in> set ts. registered c s1 (etp_id u)"
    using Cons.prems stable_registered[OF s1(3) inv_length[OF Cons.prems(1)]] by simp
  from Cons.IH[OF s1(2) reg1] obtain s' where
    s': "enable_all c now ts s1 = Inr s'" "timeouts_inv c s'" "stable s1 s'"
      "set (queue s') = set (queue s1) \<union> etp_id ` set ts"
      "trace s' = trace s1" "clock_reads s' = clock_reads s1"
      "setitimer_calls s' = setitimer_calls s1"
      "\<forall>u \<in> set ts. start_time (all_timeouts s' ! etp_id u) = now \<and>
                          indicator (all_timeouts s' ! etp_id u) = False"
      "distinct (map etp_id ts) \<longrightarrow>
              (\<forall>u \<in> set ts. fin_time (all_timeouts s' ! etp_id u) = entry_fin_time now u)"
      "\<forall>k. k \<notin> etp_id ` set ts \<longrightarrow> all_timeouts s' ! k = all_timeouts s1 ! k"
    by blast
  have t1: "all_timeouts s1 ! etp_id t = ?e" using s1(5) len by simp
  have first: "start_time (all_timeouts s' ! etp_id t) = now \<and>
      indicator (all_timeouts s' ! etp_id t) = False"
  proof (cases "etp_id t \<in> etp_id ` set ts")
    case True
    then show ?thesis using s'(8) by auto
  next
    case False
    then show ?thesis using s'(10) t1 by simp
  qed
  have fin: "\<forall>u \<in> set (t # ts). fin_time (all_timeouts s' ! etp_id u) = entry_fin_time now u"
    if d: "distinct (map etp_id (t # ts))"
  proof -
    from d have "etp_id t \<notin> etp_id ` set ts" by simp
    then have "fin_time (all_timeouts s' ! etp_id t) = entry_fin_time now t"
      using s'(10) t1 by simp
    then show ?thesis using s'(9) d by simp
  qed
  have other: "\<forall>k. k \<notin> etp_id ` set (t # ts) \<longrightarrow> all_timeouts s' ! k = all_timeouts s ! k"
    using s'(10) s1(5) by simp
  have r1: "enable_all c now (t # ts) s = Inr s'" using s1(1) s'(1) by simp
  have r2: "set (queue s') = set (queue s) \<union> etp_id ` set (t # ts)"
    using s'(4) s1(4) by auto
  have r3: "\<forall>u \<in> set (t # ts). start_time (all_timeouts s' ! etp_id u) = now \<and>
                          indicator (all_timeouts s' ! etp_id u) = False"
    using first s'(8) by simp
  have r4: "trace s' = trace s" "clock_reads s' = clock_reads s"
    "setitimer_calls s' = setitimer_calls s"
    using s'(5,6,7) s1(6,7,8) by simp_all
  have r5: "stable s s'" using stable_trans[OF s1(3) s'(3)] .
  have r6: "distinct (map etp_id (t # ts)) \<longrightarrow>
      (\<forall>u \<in> set (t # ts). fin_time (all_timeouts s' ! etp_id u) = entry_fin_time now u)"
    using fin by blast
  show ?case
    by (intro exI[of _ s'] conjI) (fact r1 s'(2) r5 r2 r4 r3 r6 other)+
qed

lemma queue_nonempty_active:
  "set (queue s) \<noteq> {} \<Longrightarrow> num_active_timeouts s > 0"
  by (cases "num_active_timeouts s > 0") (auto simp: queue_def)

lemma enable_timeouts_unfold:
  assumes os: "setitimer_rc s (setitimer_calls s) = 0"
  shows "\<exists>s0. disable_alarm (length ts > 1) s = Inr s0 \<and>
           s0 = (if length ts > 1 \<or> num_active_timeouts s > 0 then after_setitimer (0, 0) s else s) \<and>
           clock s0 (clock_reads s0) = clock s (clock_reads s) \<and>
           enable_timeouts c ts s =
             and_then (enable_each c (clock s (clock_reads s)) ts (after_clock_read s0))
               (schedule_alarm c (clock s (clock_reads s)))"
  using os by (simp add: disable_alarm_eq enable_timeouts_def GetCurrentTimestamp_eq)

subsection \<open>The loop of the signal handler\<close>

lemma mark_fired_Nil [simp]: "mark_fired [] A = A"
  by (simp add: mark_fired_def map_nth)

lemma length_mark_fired [simp]: "length (mark_fired ps A) = length A"
  by (simp add: mark_fired_def)

lemma mark_fired_Cons:
  "p < length A \<Longrightarrow>
   mark_fired ps (A[p := (A ! p)\<lparr>indicator := True\<rparr>]) = mark_fired (p # ps) A"
  by (auto simp: mark_fired_def nth_list_update)

lemma remove_head_ok:
  assumes inv: "timeouts_inv c s" and n: "num_active_timeouts s > 0"
  shows "\<exists>s1. remove_timeout_index 0 s = Inr s1 \<and> timeouts_inv c s1 \<and> stable s s1 \<and>
           queue s1 = tl (queue s) \<and> all_timeouts s1 = all_timeouts s \<and>
           trace s1 = trace s \<and> clock_reads s1 = clock_reads s \<and> clock s1 = clock s \<and>
           setitimer_calls s1 = setitimer_calls s"
proof -
  from inv have len: "length (active_timeouts s) = MAX_TIMEOUTS c"
    and nM: "num_active_timeouts s \<le> int (MAX_TIMEOUTS c)"
    and ok: "queue_ok (MAX_TIMEOUTS c) (all_timeouts s) (queue s)"
    by (simp_all add: timeouts_inv_alt)
  have lq: "length (queue s) = nat (num_active_timeouts s)"
    using len nM by (intro length_queue) simp
  then have ne: "queue s \<noteq> []" using n by auto
  from remove_timeout_index_queue[of 0 s] n len nM obtain a' where
    a': "remove_timeout_index 0 s =
           Inr (s\<lparr>active_timeouts := a', num_active_timeouts := num_active_timeouts s - 1\<rparr>)"
      "length a' = length (active_timeouts s)"
      "take (nat (num_active_timeouts s - 1)) a' = take (nat 0) (queue s) @ drop (Suc (nat 0)) (queue s)"
    by auto
  have tl: "take (nat (num_active_timeouts s - 1)) a' = tl (queue s)"
    using a'(3) by (simp add: drop_Suc)
  have "distinct (queue s)" using ok by (simp add: queue_ok_def)
  then have "tl (queue s) = removeAll (hd (queue s)) (queue s)"
    using ne by (cases "queue s") auto
  then have "take (nat (num_active_timeouts s - 1)) a' = removeAll (hd (queue s)) (queue s)"
    using tl by simp
  from timeouts_inv_removed[OF inv _ _ _ this] a'(2) len n
  have "timeouts_inv c (s\<lparr>active_timeouts := a', num_active_timeouts := num_active_timeouts s - 1\<rparr>)"
    by simp
  then show ?thesis using a'(1) tl
    by (intro exI[of _ "s\<lparr>active_timeouts := a', num_active_timeouts := num_active_timeouts s - 1\<rparr>"])
       simp
qed

lemma handler_update_indicator:
  "timeout_handler ((A[p := (A ! p)\<lparr>indicator := b\<rparr>]) ! x) = timeout_handler (A ! x)"
  "fin_time ((A[p := (A ! p)\<lparr>indicator := b\<rparr>]) ! x) = fin_time (A ! x)"
proof -
  have "timeout_handler ((A[p := (A ! p)\<lparr>indicator := b\<rparr>]) ! x) = timeout_handler (A ! x) \<and>
      fin_time ((A[p := (A ! p)\<lparr>indicator := b\<rparr>]) ! x) = fin_time (A ! x)"
  proof (cases "p < length A")
    case True
    then show ?thesis by (cases "x = p") simp_all
  next
    case False
    then have "length A \<le> p" by simp
    then have "A[p := (A ! p)\<lparr>indicator := b\<rparr>] = A" by (rule list_update_beyond)
    then show ?thesis by simp
  qed
  then show "timeout_handler ((A[p := (A ! p)\<lparr>indicator := b\<rparr>]) ! x) = timeout_handler (A ! x)"
    "fin_time ((A[p := (A ! p)\<lparr>indicator := b\<rparr>]) ! x) = fin_time (A ! x)"
    by simp_all
qed

lemma fired_handlers_append:
  "fired_handlers (a @ b) = fired_handlers a @ fired_handlers b"
  by (simp add: fired_handlers_def)

lemma fired_handlers_single:
  "fired_handlers [Ev_handler h] = [h]"
  "fired_handlers [Ev_GetCurrentTimestamp t] = []"
  "fired_handlers [Ev_SetLatch] = []"
  by (simp_all add: fired_handlers_def)

lemma fire_pending_stop:
  "\<not> (num_active_timeouts s > 0 \<and> now \<ge> fin_time (all_timeouts s ! (active_timeouts s ! 0))) \<Longrightarrow>
   fire_pending c s now = Some (Inr (now, s))"
  by (subst fire_pending.simps) auto

lemma fire_pending_step:
  assumes "num_active_timeouts s > 0"
    "now \<ge> fin_time (all_timeouts s ! (active_timeouts s ! 0))"
    "remove_timeout_index 0 s = Inr s1"
    "all_timeouts s1 = all_timeouts s"
    "active_timeouts s ! 0 < length (all_timeouts s)"
    "timeout_handler (all_timeouts s ! (active_timeouts s ! 0)) = Some h"
  shows "fire_pending c s now =
     (case call_handler c h
          (s1\<lparr>all_timeouts := (all_timeouts s)
                [active_timeouts s ! 0 :=
                   (all_timeouts s ! (active_timeouts s ! 0))\<lparr>indicator := True\<rparr>]\<rparr>) of
        None \<Rightarrow> None
      | Some (Inl e) \<Rightarrow> Some (Inl e)
      | Some (Inr s3) \<Rightarrow> fire_pending c (after_clock_read s3) (clock s3 (clock_reads s3)))"
  using assms
  by (subst fire_pending.simps)
     (simp add: Let_def GetCurrentTimestamp_eq split: option.split sum.split)

lemma inv_same_module:
  assumes "all_timeouts s' = all_timeouts s"
    "all_timeouts_initialized s' = all_timeouts_initialized s"
    "num_active_timeouts s' = num_active_timeouts s" "active_timeouts s' = active_timeouts s"
  shows "timeouts_inv c s' = timeouts_inv c s" "queue s' = queue s"
  using assms by (simp_all add: timeouts_inv_alt queue_def)

lemma call_handler_keeps:
  assumes "handlers_keep_module c"
  shows "\<exists>s'. call_handler c h s = Some (Inr s') \<and>
      all_timeouts s' = all_timeouts s \<and>
      all_timeouts_initialized s' = all_timeouts_initialized s \<and>
      num_active_timeouts s' = num_active_timeouts s \<and>
      active_timeouts s' = active_timeouts s \<and>
      clock s' = clock s \<and> setitimer_rc s' = setitimer_rc s \<and> MyProc s' = MyProc s \<and>
      clock_reads s \<le> clock_reads s' \<and>
      fired_handlers (trace s') = fired_handlers (trace s) @ [h]"
  using assms[unfolded handlers_keep_module_def, rule_format,
              of h "s\<lparr>trace := trace s @ [Ev_handler h]\<rparr>"]
  by (simp add: call_handler_def fired_handlers_append fired_handlers_single)


lemma fire_pending_spec:
  assumes "timeouts_inv c s" "handlers_keep_module c" "r0 < clock_reads s"
  shows "\<exists>k s' reads. fire_pending c s (clock s r0) = Some (Inr (clock s (reads ! k), s')) \<and>
      length reads = Suc k \<and> reads ! 0 = r0 \<and> (\<forall>j<k. reads ! j < reads ! Suc j) \<and>
      reads ! k < clock_reads s' \<and>
      k \<le> length (queue s) \<and>
      (\<forall>j<k. fin_time (all_timeouts s ! (queue s ! j)) \<le> clock s (reads ! j)) \<and>
      (k < length (queue s) \<longrightarrow> clock s (reads ! k) < fin_time (all_timeouts s ! (queue s ! k))) \<and>
      timeouts_inv c s' \<and> stable s s' \<and> queue s' = drop k (queue s) \<and>
      all_timeouts s' = mark_fired (take k (queue s)) (all_timeouts s) \<and>
      fired_handlers (trace s') = fired_handlers (trace s) @
        map (\<lambda>p. the (timeout_handler (all_timeouts s ! p))) (take k (queue s))"
  using assms
proof (induction "length (queue s)" arbitrary: s r0)
  case 0
  then have q: "queue s = []" by simp
  have "length (queue s) = nat (num_active_timeouts s)"
    using "0.prems" by (intro length_queue) (simp add: timeouts_inv_alt)
  then have "\<not> num_active_timeouts s > 0" using q by simp
  then have "fire_pending c s (clock s r0) = Some (Inr (clock s r0, s))"
    by (simp add: fire_pending_stop)
  then show ?case using q "0.prems"
    by (intro exI[of _ 0] exI[of _ s] exI[of _ "[r0]"]) simp
next
  case (Suc n)
  let ?A = "all_timeouts s" and ?q = "queue s"
  note inv = Suc.prems(1) and K = Suc.prems(2) and r0 = Suc.prems(3)
  from inv have ok: "queue_ok (MAX_TIMEOUTS c) ?A ?q"
    and lenA: "length ?A = MAX_TIMEOUTS c"
    by (simp_all add: timeouts_inv_alt queue_ok_def)
  have lq: "length ?q = nat (num_active_timeouts s)"
    using inv by (intro length_queue) (simp add: timeouts_inv_alt)
  then have npos: "num_active_timeouts s > 0" using Suc(2) by simp
  obtain p0 q' where q: "?q = p0 # q'" using Suc(2) by (cases ?q) simp_all
  have a0: "active_timeouts s ! 0 = p0" using queue_nth[of 0 s] npos q by simp
  have p0: "p0 < length ?A" and h0: "timeout_handler (?A ! p0) \<noteq> None"
    using ok q lenA by (simp_all add: queue_ok_def)
  show ?case
  proof (cases "clock s r0 \<ge> fin_time (?A ! p0)")
    case False
    then have "fire_pending c s (clock s r0) = Some (Inr (clock s r0, s))"
      using a0 by (simp add: fire_pending_stop)
    then show ?thesis using False q inv r0
      by (intro exI[of _ 0] exI[of _ s] exI[of _ "[r0]"]) simp
  next
    case True
    from h0 obtain h where h: "timeout_handler (?A ! p0) = Some h" by blast
    from remove_head_ok[OF inv npos] obtain s1 where
      s1: "remove_timeout_index 0 s = Inr s1" "timeouts_inv c s1" "stable s s1"
        "queue s1 = tl ?q" "all_timeouts s1 = ?A" "trace s1 = trace s"
        "clock_reads s1 = clock_reads s" "clock s1 = clock s"
      by blast
    define A2 where "A2 = ?A[p0 := (?A ! p0)\<lparr>indicator := True\<rparr>]"
    define s2 where "s2 = s1\<lparr>all_timeouts := A2\<rparr>"
    have inv2: "timeouts_inv c s2"
      using inv_update_indicator[OF s1(2), of p0 True] p0 lenA s1(5) by (simp add: A2_def s2_def)
    have st2: "stable s s2"
      using s1(3) s1(5) stable_update[of "(?A ! p0)\<lparr>indicator := True\<rparr>" s1 p0 s]
      by (simp add: A2_def s2_def)
    have s2: "queue s2 = q'" "all_timeouts s2 = A2" "clock s2 = clock s"
      "clock_reads s2 = clock_reads s" "trace s2 = trace s"
      using s1 q by (simp_all add: s2_def)
    from call_handler_keeps[OF K, of h s2] obtain s3 where
      s3: "call_handler c h s2 = Some (Inr s3)"
        "all_timeouts s3 = all_timeouts s2"
        "all_timeouts_initialized s3 = all_timeouts_initialized s2"
        "num_active_timeouts s3 = num_active_timeouts s2"
        "active_timeouts s3 = active_timeouts s2"
        "clock s3 = clock s2" "setitimer_rc s3 = setitimer_rc s2" "MyProc s3 = MyProc s2"
        "clock_reads s2 \<le> clock_reads s3"
        "fired_handlers (trace s3) = fired_handlers (trace s2) @ [h]"
      by blast
    define r1 where "r1 = clock_reads s3"
    define s4 where "s4 = after_clock_read s3"
    have e2: "s1\<lparr>all_timeouts := ?A[p0 := (?A ! p0)\<lparr>indicator := True\<rparr>]\<rparr> = s2"
      by (simp add: s2_def A2_def)
    have "fire_pending c s (clock s r0) =
        (case call_handler c h s2 of
           None \<Rightarrow> None
         | Some (Inl e) \<Rightarrow> Some (Inl e)
         | Some (Inr s3) \<Rightarrow> fire_pending c (after_clock_read s3) (clock s3 (clock_reads s3)))"
      using fire_pending_step[OF npos _ s1(1,5), of "clock s r0" h c] True a0 p0 h
      by (simp add: e2)
    then have step: "fire_pending c s (clock s r0) = fire_pending c s4 (clock s r1)"
      using s3(1,6) s2(3) by (simp add: s4_def r1_def)
    have inv4: "timeouts_inv c s4"
      using inv_same_module(1)[OF s3(2,3,4,5), of c] inv2 by (simp add: s4_def)
    have q4: "queue s4 = q'"
      using inv_same_module(2)[OF s3(2,3,4,5)] s2(1) by (simp add: s4_def)
    have s4: "all_timeouts s4 = A2" "clock s4 = clock s" "clock_reads s4 = Suc r1"
      "fired_handlers (trace s4) = fired_handlers (trace s) @ [h]"
      using s3 s2
      by (simp_all add: s4_def r1_def after_clock_read_def fired_handlers_append
          fired_handlers_single)
    have "stable s2 s3" using s3 by (simp add: stable_def)
    then have st4: "stable s s4" using stable_trans[OF st2] by (simp add: s4_def)
    have r01: "r0 < r1" using r0 s3(9) s2(4) by (simp add: r1_def)
    have r14: "r1 < clock_reads s4" using s4(3) by simp
    have n: "n = length (queue s4)" using Suc(2) q q4 by simp
    from Suc(1)[OF n inv4 K r14] obtain k' s' reads' where
      ih: "fire_pending c s4 (clock s4 r1) = Some (Inr (clock s4 (reads' ! k'), s'))"
        "length reads' = Suc k'" "reads' ! 0 = r1" "\<forall>j<k'. reads' ! j < reads' ! Suc j"
        "reads' ! k' < clock_reads s'"
        "k' \<le> length (queue s4)"
        "\<forall>j<k'. fin_time (all_timeouts s4 ! (queue s4 ! j)) \<le> clock s4 (reads' ! j)"
        "k' < length (queue s4) \<longrightarrow>
           clock s4 (reads' ! k') < fin_time (all_timeouts s4 ! (queue s4 ! k'))"
        "timeouts_inv c s'" "stable s4 s'" "queue s' = drop k' (queue s4)"
        "all_timeouts s' = mark_fired (take k' (queue s4)) (all_timeouts s4)"
        "fired_handlers (trace s') = fired_handlers (trace s4) @
           map (\<lambda>p. the (timeout_handler (all_timeouts s4 ! p))) (take k' (queue s4))"
      by blast
    let ?reads = "r0 # reads'"
    have fin4: "fin_time (all_timeouts s4 ! x) = fin_time (?A ! x)" for x
      by (simp add: s4(1) A2_def handler_update_indicator)
    have hd4: "timeout_handler (all_timeouts s4 ! x) = timeout_handler (?A ! x)" for x
      by (simp add: s4(1) A2_def handler_update_indicator)
    have c1: "fire_pending c s (clock s r0) = Some (Inr (clock s (?reads ! Suc k'), s'))"
      using step ih(1) s4(2) by simp
    have c2: "length ?reads = Suc (Suc k')" using ih(2) by simp
    have c3: "?reads ! 0 = r0" by simp
    have c4: "\<forall>j<Suc k'. ?reads ! j < ?reads ! Suc j"
    proof (intro allI impI)
      fix j assume j: "j < Suc k'"
      show "?reads ! j < ?reads ! Suc j"
      proof (cases j)
        case 0
        then show ?thesis using r01 ih(3) by simp
      next
        case (Suc i)
        then have "i < k'" using j by simp
        then show ?thesis using ih(4) Suc by simp
      qed
    qed
    have c5: "?reads ! Suc k' < clock_reads s'" using ih(5) by simp
    have c6: "Suc k' \<le> length ?q" using ih(6) q4 q by simp
    have c7: "\<forall>j<Suc k'. fin_time (?A ! (?q ! j)) \<le> clock s (?reads ! j)"
    proof (intro allI impI)
      fix j assume j: "j < Suc k'"
      show "fin_time (?A ! (?q ! j)) \<le> clock s (?reads ! j)"
      proof (cases j)
        case 0
        then show ?thesis using True q by simp
      next
        case (Suc i)
        then have "i < k'" using j by simp
        then have "fin_time (all_timeouts s4 ! (queue s4 ! i)) \<le> clock s4 (reads' ! i)"
          using ih(7) by simp
        then show ?thesis using Suc q q4 s4(2) fin4 by simp
      qed
    qed
    have c8: "Suc k' < length ?q \<longrightarrow> clock s (?reads ! Suc k') < fin_time (?A ! (?q ! Suc k'))"
      using ih(8) q q4 s4(2) fin4 by simp
    have c9: "stable s s'" using stable_trans[OF st4 ih(10)] .
    have c10: "queue s' = drop (Suc k') ?q" using ih(11) q4 q by simp
    have c11: "all_timeouts s' = mark_fired (take (Suc k') ?q) ?A"
      using ih(12) q4 s4(1) q mark_fired_Cons[OF p0, of "take k' q'"] by (simp add: A2_def)
    have c12: "fired_handlers (trace s') = fired_handlers (trace s) @
        map (\<lambda>p. the (timeout_handler (?A ! p))) (take (Suc k') ?q)"
      using ih(13) q4 s4(4) q h hd4 by simp
    show ?thesis
      by (intro exI[of _ "Suc k'"] exI[of _ s'] exI[of _ ?reads] conjI)
         (fact c1 c2 c3 c4 c5 c6 c7 c8 ih(9) c9 c10 c11 c12)+
  qed
qed

lemma schedule_alarm_queue:
  "schedule_alarm c now s = Inr s' \<Longrightarrow> queue s' = queue s"
  by (auto simp: schedule_alarm_eq split: if_splits)

section \<open>Specified behaviour\<close>

subsection \<open>Reading the indicator\<close>

text \<open>
  C7. For every timeout reason, \<open>get_timeout_indicator(id, reset)\<close> returns the current
  value of the entry's indicator. It clears the indicator only when the indicator is true
  and \<open>reset\<close> is true; when it returns false the state is unchanged, so the indicator
  is never cleared on a false return.
\<close>

theorem get_timeout_indicator_no_false_clear:
  assumes "tid < length (all_timeouts s)"
  shows "fst (get_timeout_indicator tid reset s) = indicator (all_timeouts s ! tid) \<and>
         snd (get_timeout_indicator tid reset s) =
           (if indicator (all_timeouts s ! tid) \<and> reset
            then s\<lparr>all_timeouts := (all_timeouts s)[tid := (all_timeouts s ! tid)\<lparr>indicator := False\<rparr>]\<rparr>
            else s) \<and>
         (\<not> fst (get_timeout_indicator tid reset s) \<longrightarrow> snd (get_timeout_indicator tid reset s) = s) \<and>
         indicator (all_timeouts (snd (get_timeout_indicator tid reset s)) ! tid) =
           (indicator (all_timeouts s ! tid) \<and> \<not> reset)"
  using assms by (simp add: get_timeout_indicator_def)

text \<open>
  In the example state reason 1 has not fired and reason 0 has: reading 1 with
  \<open>reset\<close> returns false and changes nothing, reading 0 with \<open>reset\<close> returns true
  and clears it.
\<close>

theorem get_timeout_indicator_no_false_clear_witness:
  "(1::nat) < length (all_timeouts example_state) \<and>
   fst (get_timeout_indicator 1 True example_state) = False \<and>
   snd (get_timeout_indicator 1 True example_state) = example_state \<and>
   (0::nat) < length (all_timeouts example_state) \<and>
   fst (get_timeout_indicator 0 True example_state) = True \<and>
   indicator (all_timeouts (snd (get_timeout_indicator 0 True example_state)) ! 0) = False"
proof -
  have h1: "(1::nat) < length (all_timeouts example_state)" by (simp add: example_state_def)
  have h0: "(0::nat) < length (all_timeouts example_state)" by (simp add: example_state_def)
  have i1: "indicator (all_timeouts example_state ! 1) = False" by (simp add: example_state_def)
  have i0: "indicator (all_timeouts example_state ! 0) = True" by (simp add: example_state_def)
  show ?thesis
    using h1 h0 i1 i0
      get_timeout_indicator_no_false_clear[OF h1, of True]
      get_timeout_indicator_no_false_clear[OF h0, of True]
    by simp
qed

subsection \<open>Registering\<close>

text \<open>
  C5. \<open>RegisterTimeout(id, handler)\<close>: for \<open>id < USER_TIMEOUT\<close> it records the handler
  at slot \<open>id\<close> and returns \<open>id\<close> (where assertions are compiled in, the slot must
  be free and the module initialized, as the function asserts). For \<open>id = USER_TIMEOUT\<close>
  (the code takes every \<open>id \<ge> USER_TIMEOUT\<close> this way) it records the handler at the first
  slot in \<open>[USER_TIMEOUT, MAX_TIMEOUTS)\<close> whose handler is unset and returns that slot,
  and fails with FATAL when no such slot is free. In every case the active queue and
  \<open>num_active_timeouts\<close> are unchanged.
\<close>

theorem RegisterTimeout_spec:
  assumes wf: "USER_TIMEOUT c \<le> MAX_TIMEOUTS c" "length (all_timeouts s) = MAX_TIMEOUTS c"
    and init: "USE_ASSERT_CHECKING c \<longrightarrow> all_timeouts_initialized s"
  shows "(tid < USER_TIMEOUT c \<longrightarrow>
            (USE_ASSERT_CHECKING c \<longrightarrow> timeout_handler (all_timeouts s ! tid) = None) \<longrightarrow>
            RegisterTimeout c tid handler s =
              Inr (tid, s\<lparr>all_timeouts := (all_timeouts s)
                             [tid := (all_timeouts s ! tid)\<lparr>timeout_handler := handler\<rparr>]\<rparr>)) \<and>
         (tid \<ge> USER_TIMEOUT c \<longrightarrow>
            (\<forall>k. USER_TIMEOUT c \<le> k \<and> k < MAX_TIMEOUTS c \<and>
                 timeout_handler (all_timeouts s ! k) = None \<and>
                 (\<forall>j. USER_TIMEOUT c \<le> j \<and> j < k \<longrightarrow> timeout_handler (all_timeouts s ! j) \<noteq> None) \<longrightarrow>
               RegisterTimeout c tid handler s =
                 Inr (k, s\<lparr>all_timeouts := (all_timeouts s)
                              [k := (all_timeouts s ! k)\<lparr>timeout_handler := handler\<rparr>]\<rparr>)) \<and>
            ((\<forall>k. USER_TIMEOUT c \<le> k \<and> k < MAX_TIMEOUTS c \<longrightarrow>
                  timeout_handler (all_timeouts s ! k) \<noteq> None) \<longrightarrow>
               RegisterTimeout c tid handler s = Inl (FATAL_cannot_add_more_timeout_reasons, s))) \<and>
         (case RegisterTimeout c tid handler s of
            Inl (e, s') \<Rightarrow> s' = s
          | Inr (r, s') \<Rightarrow> active_timeouts s' = active_timeouts s \<and>
              num_active_timeouts s' = num_active_timeouts s \<and> queue s' = queue s)"
proof -
  define r where "r = find_free_slot (all_timeouts s) (USER_TIMEOUT c) (MAX_TIMEOUTS c)"
  note fs = find_free_slot_spec[OF r_def[symmetric] wf(1)]
  have 1: "tid < USER_TIMEOUT c \<longrightarrow>
            (USE_ASSERT_CHECKING c \<longrightarrow> timeout_handler (all_timeouts s ! tid) = None) \<longrightarrow>
            RegisterTimeout c tid handler s =
              Inr (tid, s\<lparr>all_timeouts := (all_timeouts s)
                             [tid := (all_timeouts s ! tid)\<lparr>timeout_handler := handler\<rparr>]\<rparr>)"
    using init by (auto simp: RegisterTimeout_def Assert_def)
  have 2: "RegisterTimeout c tid handler s =
                 Inr (k, s\<lparr>all_timeouts := (all_timeouts s)
                              [k := (all_timeouts s ! k)\<lparr>timeout_handler := handler\<rparr>]\<rparr>)"
    if "tid \<ge> USER_TIMEOUT c" "USER_TIMEOUT c \<le> k" "k < MAX_TIMEOUTS c"
       "timeout_handler (all_timeouts s ! k) = None"
       "\<forall>j. USER_TIMEOUT c \<le> j \<and> j < k \<longrightarrow> timeout_handler (all_timeouts s ! j) \<noteq> None" for k
  proof -
    have "r = k"
    proof (rule ccontr)
      assume "r \<noteq> k"
      then consider "r < k" | "k < r" by arith
      then show False
      proof cases
        case 1
        then show ?thesis using fs that by auto
      next
        case 2
        then show ?thesis using fs that by auto
      qed
    qed
    then show ?thesis using that init
      by (simp add: RegisterTimeout_def Assert_def r_def[symmetric] Let_def)
  qed
  have 3: "RegisterTimeout c tid handler s = Inl (FATAL_cannot_add_more_timeout_reasons, s)"
    if "tid \<ge> USER_TIMEOUT c"
       "\<forall>k. USER_TIMEOUT c \<le> k \<and> k < MAX_TIMEOUTS c \<longrightarrow> timeout_handler (all_timeouts s ! k) \<noteq> None"
  proof -
    have "r = MAX_TIMEOUTS c" using fs that(2) by (metis le_neq_implies_less)
    then show ?thesis using that init
      by (simp add: RegisterTimeout_def Assert_def r_def[symmetric] Let_def)
  qed
  have 4: "case RegisterTimeout c tid handler s of
            Inl (e, s') \<Rightarrow> s' = s
          | Inr (r, s') \<Rightarrow> active_timeouts s' = active_timeouts s \<and>
              num_active_timeouts s' = num_active_timeouts s \<and> queue s' = queue s"
    by (auto simp: RegisterTimeout_def Assert_def and_then_def Let_def queue_def split: sum.splits if_splits)
  show ?thesis using 1 2 3 4 by blast
qed

text \<open>
  In the example state slot 2 is a free predefined slot, and slot 4 is the first free slot
  for user-defined reasons (slot 3 is taken).
\<close>

theorem RegisterTimeout_spec_witness:
  "USER_TIMEOUT example_platform \<le> MAX_TIMEOUTS example_platform \<and>
   length (all_timeouts example_state) = MAX_TIMEOUTS example_platform \<and>
   all_timeouts_initialized example_state \<and>
   (2::nat) < USER_TIMEOUT example_platform \<and>
   timeout_handler (all_timeouts example_state ! 2) = None \<and>
   RegisterTimeout example_platform 2 (Some 12) example_state =
     Inr (2, example_state\<lparr>all_timeouts := (all_timeouts example_state)
            [2 := (all_timeouts example_state ! 2)\<lparr>timeout_handler := Some 12\<rparr>]\<rparr>) \<and>
   RegisterTimeout example_platform 3 (Some 14) example_state =
     Inr (4, example_state\<lparr>all_timeouts := (all_timeouts example_state)
            [4 := (all_timeouts example_state ! 4)\<lparr>timeout_handler := Some 14\<rparr>]\<rparr>)"
proof -
  have wf: "USER_TIMEOUT example_platform \<le> MAX_TIMEOUTS example_platform"
    "length (all_timeouts example_state) = MAX_TIMEOUTS example_platform"
    by (simp_all add: example_platform_def example_state_def)
  have init: "all_timeouts_initialized example_state" by (simp add: example_state_def)
  then have init': "USE_ASSERT_CHECKING example_platform \<longrightarrow> all_timeouts_initialized example_state"
    by simp
  have a: "(2::nat) < USER_TIMEOUT example_platform"
    "timeout_handler (all_timeouts example_state ! 2) = None"
    by (simp_all add: example_platform_def example_state_def)
  have b: "USER_TIMEOUT example_platform \<le> 3" "USER_TIMEOUT example_platform \<le> 4"
    "4 < MAX_TIMEOUTS example_platform"
    "timeout_handler (all_timeouts example_state ! 4) = None"
    "\<forall>j. USER_TIMEOUT example_platform \<le> j \<and> j < 4 \<longrightarrow>
         timeout_handler (all_timeouts example_state ! j) \<noteq> None"
    by (auto simp: example_platform_def example_state_def le_Suc_eq numeral_eq_Suc less_Suc_eq)
  note R2 = RegisterTimeout_spec[OF wf init', of 2 "Some 12"]
  note R3 = RegisterTimeout_spec[OF wf init', of 3 "Some 14"]
  have "RegisterTimeout example_platform 2 (Some 12) example_state =
     Inr (2, example_state\<lparr>all_timeouts := (all_timeouts example_state)
            [2 := (all_timeouts example_state ! 2)\<lparr>timeout_handler := Some 12\<rparr>]\<rparr>)"
    using R2 a by blast
  moreover have "RegisterTimeout example_platform 3 (Some 14) example_state =
     Inr (4, example_state\<lparr>all_timeouts := (all_timeouts example_state)
            [4 := (all_timeouts example_state ! 4)\<lparr>timeout_handler := Some 14\<rparr>]\<rparr>)"
    using R3 b by blast
  ultimately show ?thesis using wf init a by blast
qed

subsection \<open>Scheduling the alarm\<close>

text \<open>
  C6. \<open>schedule_alarm(now)\<close> does nothing when no timeout is active. Otherwise it calls
  \<open>setitimer\<close> once, with the \<open>(secs, usecs)\<close> that \<open>TimestampDifference\<close> gives for
  \<open>now\<close> and the \<open>fin_time\<close> of the queue head, except that \<open>(0, 0)\<close> becomes
  \<open>(0, 1)\<close>: the interval programmed is never the disarming value zero, whatever the
  order of \<open>fin_time\<close> and \<open>now\<close>. The call returns when \<open>setitimer\<close> succeeds and
  ends in FATAL otherwise. With the \<open>TimestampDifference\<close> of the specification, a head
  that is due at \<open>now\<close> or earlier gives the interval \<open>(0, 1)\<close>: one microsecond.
\<close>

theorem schedule_alarm_never_zero:
  "(num_active_timeouts s \<le> 0 \<longrightarrow> schedule_alarm c now s = Inr s) \<and>
   (num_active_timeouts s > 0 \<longrightarrow>
      (\<exists>secs usecs s'.
         TimestampDifference c now (fin_time (all_timeouts s ! (active_timeouts s ! 0))) = (secs, usecs) \<and>
         s' = s\<lparr>setitimer_calls := Suc (setitimer_calls s),
                 trace := trace s @ [Ev_setitimer secs (if secs = 0 \<and> usecs = 0 then 1 else usecs)]\<rparr> \<and>
         schedule_alarm c now s =
           (if setitimer_rc s (setitimer_calls s) = 0 then Inr s'
            else Inl (FATAL_could_not_enable_SIGALRM_timer, s')) \<and>
         (secs, if secs = 0 \<and> usecs = 0 then 1 else usecs) \<noteq> (0, 0) \<and>
         (TimestampDifference c = TimestampDifference_usecs \<and>
          fin_time (all_timeouts s ! (active_timeouts s ! 0)) \<le> now \<longrightarrow>
            (secs, if secs = 0 \<and> usecs = 0 then 1 else usecs) = (0, 1))))"
  by (cases "TimestampDifference c now (fin_time (all_timeouts s ! (active_timeouts s ! 0)))")
     (auto simp: schedule_alarm_def setitimer_def TimestampDifference_usecs_def)

text \<open>
  In the example state the head of the queue was due at 50 and the time is 100: the timer
  is set to one microsecond. With an empty queue nothing happens.
\<close>

theorem schedule_alarm_never_zero_witness:
  "num_active_timeouts example_state > 0 \<and>
   fin_time (all_timeouts example_state ! (active_timeouts example_state ! 0)) \<le> 100 \<and>
   schedule_alarm example_platform 100 example_state =
     Inr (example_state\<lparr>setitimer_calls := 1, trace := [Ev_setitimer 0 1]\<rparr>) \<and>
   num_active_timeouts (example_state\<lparr>num_active_timeouts := 0\<rparr>) \<le> 0 \<and>
   schedule_alarm example_platform 100 (example_state\<lparr>num_active_timeouts := 0\<rparr>) =
     Inr (example_state\<lparr>num_active_timeouts := 0\<rparr>)"
proof -
  have a: "num_active_timeouts example_state > 0"
    "fin_time (all_timeouts example_state ! (active_timeouts example_state ! 0)) \<le> 100"
    "TimestampDifference example_platform 100
       (fin_time (all_timeouts example_state ! (active_timeouts example_state ! 0))) = (0, 0)"
    "setitimer_rc example_state (setitimer_calls example_state) = 0"
    "setitimer_calls example_state = 0" "trace example_state = []"
    by (simp_all add: example_state_def example_platform_def TimestampDifference_usecs_def)
  have b: "num_active_timeouts (example_state\<lparr>num_active_timeouts := 0\<rparr>) \<le> 0" by simp
  from schedule_alarm_never_zero[of example_state example_platform 100] a
  have "schedule_alarm example_platform 100 example_state =
     Inr (example_state\<lparr>setitimer_calls := 1, trace := [Ev_setitimer 0 1]\<rparr>)"
    by auto
  moreover from schedule_alarm_never_zero[of "example_state\<lparr>num_active_timeouts := 0\<rparr>" example_platform 100] b
  have "schedule_alarm example_platform 100 (example_state\<lparr>num_active_timeouts := 0\<rparr>) =
     Inr (example_state\<lparr>num_active_timeouts := 0\<rparr>)"
    by blast
  ultimately show ?thesis using a(1,2) b by blast
qed

subsection \<open>Disabling all timeouts\<close>

text \<open>
  C8. \<open>disable_all_timeouts(keep_indicators)\<close> calls \<open>setitimer\<close> with zero whatever the
  state of the queue, sets \<open>num_active_timeouts\<close> to 0 and, when \<open>keep_indicators\<close> is
  false, clears the indicator of every entry. Every entry keeps its handler, its
  \<open>start_time\<close> and its \<open>fin_time\<close>, so a reason that was registered is still
  registered.
\<close>

theorem disable_all_timeouts_frame:
  assumes "length (all_timeouts s) = MAX_TIMEOUTS c"
  shows "\<exists>s'. (disable_all_timeouts c keep_indicators s =
                 (if setitimer_rc s (setitimer_calls s) = 0 then Inr s'
                  else Inl (FATAL_could_not_disable_SIGALRM_timer,
                            s\<lparr>setitimer_calls := Suc (setitimer_calls s),
                              trace := trace s @ [Ev_setitimer 0 0]\<rparr>))) \<and>
          trace s' = trace s @ [Ev_setitimer 0 0] \<and>
          setitimer_calls s' = Suc (setitimer_calls s) \<and>
          num_active_timeouts s' = 0 \<and> queue s' = [] \<and>
          length (all_timeouts s') = length (all_timeouts s) \<and>
          (\<forall>i < MAX_TIMEOUTS c.
             indicator (all_timeouts s' ! i) = (keep_indicators \<and> indicator (all_timeouts s ! i)) \<and>
             timeout_handler (all_timeouts s' ! i) = timeout_handler (all_timeouts s ! i) \<and>
             start_time (all_timeouts s' ! i) = start_time (all_timeouts s ! i) \<and>
             fin_time (all_timeouts s' ! i) = fin_time (all_timeouts s ! i) \<and>
             index (all_timeouts s' ! i) = index (all_timeouts s ! i) \<and>
             registered c s' i = registered c s i) \<and>
          all_timeouts_initialized s' = all_timeouts_initialized s \<and>
          active_timeouts s' = active_timeouts s"
proof -
  define s1 where "s1 = s\<lparr>setitimer_calls := Suc (setitimer_calls s),
                            trace := trace s @ [Ev_setitimer 0 0], num_active_timeouts := 0\<rparr>"
  define s' where "s' = (if \<not> keep_indicators
     then s1\<lparr>all_timeouts := map (\<lambda>e. e\<lparr>indicator := False\<rparr>) (all_timeouts s)\<rparr> else s1)"
  have "disable_all_timeouts c keep_indicators s =
          (if setitimer_rc s (setitimer_calls s) = 0 then Inr s'
           else Inl (FATAL_could_not_disable_SIGALRM_timer,
                     s\<lparr>setitimer_calls := Suc (setitimer_calls s),
                       trace := trace s @ [Ev_setitimer 0 0]\<rparr>))"
    using clear_indicators_map[of "all_timeouts s"] assms
    by (simp add: disable_all_timeouts_def setitimer_def s'_def s1_def Let_def)
  moreover have "trace s' = trace s @ [Ev_setitimer 0 0]" "setitimer_calls s' = Suc (setitimer_calls s)"
    "num_active_timeouts s' = 0" "queue s' = []" "length (all_timeouts s') = length (all_timeouts s)"
    "all_timeouts_initialized s' = all_timeouts_initialized s" "active_timeouts s' = active_timeouts s"
    by (simp_all add: s'_def s1_def queue_def)
  moreover have "\<forall>i < MAX_TIMEOUTS c.
             indicator (all_timeouts s' ! i) = (keep_indicators \<and> indicator (all_timeouts s ! i)) \<and>
             timeout_handler (all_timeouts s' ! i) = timeout_handler (all_timeouts s ! i) \<and>
             start_time (all_timeouts s' ! i) = start_time (all_timeouts s ! i) \<and>
             fin_time (all_timeouts s' ! i) = fin_time (all_timeouts s ! i) \<and>
             index (all_timeouts s' ! i) = index (all_timeouts s ! i) \<and>
             registered c s' i = registered c s i"
    using assms by (simp add: s'_def s1_def registered_def)
  ultimately show ?thesis by blast
qed

text \<open>In the example state reason 0 had fired; afterwards its indicator is clear.\<close>

theorem disable_all_timeouts_frame_witness:
  "length (all_timeouts example_state) = MAX_TIMEOUTS example_platform \<and>
   (\<exists>s'. disable_all_timeouts example_platform False example_state = Inr s' \<and>
         trace s' = [Ev_setitimer 0 0] \<and> num_active_timeouts s' = 0 \<and>
         indicator (all_timeouts s' ! 0) = False \<and>
         timeout_handler (all_timeouts s' ! 1) = Some 11 \<and>
         start_time (all_timeouts s' ! 1) = 5 \<and> fin_time (all_timeouts s' ! 1) = 50 \<and>
         registered example_platform s' 3)"
proof -
  have h: "length (all_timeouts example_state) = MAX_TIMEOUTS example_platform"
    by (simp add: example_state_def example_platform_def)
  have rc: "setitimer_rc example_state (setitimer_calls example_state) = 0"
    "trace example_state = []" "(1::nat) < MAX_TIMEOUTS example_platform"
    "(3::nat) < MAX_TIMEOUTS example_platform"
    "registered example_platform example_state 3"
    "timeout_handler (all_timeouts example_state ! 1) = Some 11"
    "start_time (all_timeouts example_state ! 1) = 5"
    "fin_time (all_timeouts example_state ! 1) = 50"
    by (simp_all add: example_state_def example_platform_def registered_def)
  from disable_all_timeouts_frame[OF h, of False] obtain s' where
    s': "disable_all_timeouts example_platform False example_state =
                 (if setitimer_rc example_state (setitimer_calls example_state) = 0 then Inr s'
                  else Inl (FATAL_could_not_disable_SIGALRM_timer,
                            example_state\<lparr>setitimer_calls := Suc (setitimer_calls example_state),
                              trace := trace example_state @ [Ev_setitimer 0 0]\<rparr>))"
       "trace s' = trace example_state @ [Ev_setitimer 0 0]" "num_active_timeouts s' = 0"
       "\<forall>i < MAX_TIMEOUTS example_platform.
             indicator (all_timeouts s' ! i) = (False \<and> indicator (all_timeouts example_state ! i)) \<and>
             timeout_handler (all_timeouts s' ! i) = timeout_handler (all_timeouts example_state ! i) \<and>
             start_time (all_timeouts s' ! i) = start_time (all_timeouts example_state ! i) \<and>
             fin_time (all_timeouts s' ! i) = fin_time (all_timeouts example_state ! i) \<and>
             index (all_timeouts s' ! i) = index (all_timeouts example_state ! i) \<and>
             registered example_platform s' i = registered example_platform example_state i"
    by blast
  have "disable_all_timeouts example_platform False example_state = Inr s'"
    using s'(1) rc(1) by simp
  moreover have "trace s' = [Ev_setitimer 0 0]" using s'(2) rc(2) by simp
  moreover have "indicator (all_timeouts s' ! 0) = False \<and>
         timeout_handler (all_timeouts s' ! 1) = Some 11 \<and>
         start_time (all_timeouts s' ! 1) = 5 \<and> fin_time (all_timeouts s' ! 1) = 50"
    using s'(4) rc(3,6,7,8) by simp
  moreover have "registered example_platform s' 3" using s'(4) rc(4,5) by blast
  ultimately show ?thesis using h s'(3) by blast
qed

subsection \<open>The queue invariants\<close>

text \<open>
  C1. Each mutator, run from a state that satisfies the invariants (with the module
  initialized and the identifiers it is given registered), leaves a state that satisfies
  them again: the active queue is strictly increasing in the key \<open>(fin_time, index)\<close>,
  no identifier is queued twice, every queued entry has a handler, and
  \<open>0 \<le> num_active_timeouts \<le> MAX_TIMEOUTS\<close>. The mutator returns unless a
  \<open>setitimer\<close> call fails; then it ends in FATAL, and the invariants hold at that point
  too. No assertion fails, no index is out of range and \<open>active_timeouts\<close> is never
  overrun. For \<open>enable_timeouts\<close> this is so when every entry has type AFTER or AT; with
  an entry of another type the call may end in the ERROR, again in a state that satisfies
  the invariants.
\<close>

theorem mutators_preserve_invariants:
  assumes "timeouts_inv c s"
  shows "(registered c s tid \<longrightarrow>
            invariants_hold_after c s (enable_timeout_after c tid delay_ms s)) \<and>
         (registered c s tid \<longrightarrow>
            invariants_hold_after c s (enable_timeout_at c tid fin s)) \<and>
         ((\<forall>t \<in> set ets. registered c s (etp_id t) \<and>
                            (etp_type t = TMPARAM_AFTER \<or> etp_type t = TMPARAM_AT)) \<longrightarrow>
            invariants_hold_after c s (enable_timeouts c ets s)) \<and>
         ((\<forall>t \<in> set ets. registered c s (etp_id t)) \<longrightarrow>
            (\<exists>s'. (enable_timeouts c ets s = Inr s' \<or> (\<exists>e. enable_timeouts c ets s = Inl (e, s'))) \<and>
                  timeouts_inv c s')) \<and>
         (registered c s tid \<longrightarrow>
            invariants_hold_after c s (disable_timeout c tid keep_indicator s)) \<and>
         ((\<forall>t \<in> set dts. registered c s (dtp_id t)) \<longrightarrow>
            invariants_hold_after c s (disable_timeouts c dts s)) \<and>
         invariants_hold_after c s (disable_all_timeouts c keep_indicator s)"
proof (intro conjI impI)
  assume "registered c s tid"
  with assms show "invariants_hold_after c s (enable_timeout_after c tid delay_ms s)"
    by (intro ends_well_invariants_hold ends_well_enable_timeout_after)
next
  assume "registered c s tid"
  with assms show "invariants_hold_after c s (enable_timeout_at c tid fin s)"
    by (intro ends_well_invariants_hold ends_well_enable_timeout_at)
next
  assume "\<forall>t \<in> set ets. registered c s (etp_id t) \<and>
                            (etp_type t = TMPARAM_AFTER \<or> etp_type t = TMPARAM_AT)"
  with assms show "invariants_hold_after c s (enable_timeouts c ets s)"
    by (intro ends_well_invariants_hold ends_well_enable_timeouts) auto
next
  assume "\<forall>t \<in> set ets. registered c s (etp_id t)"
  with assms show "\<exists>s'. (enable_timeouts c ets s = Inr s' \<or> (\<exists>e. enable_timeouts c ets s = Inl (e, s'))) \<and>
                  timeouts_inv c s'"
    by (intro ends_well_state[of c s] ends_well_enable_timeouts) auto
next
  assume "registered c s tid"
  with assms show "invariants_hold_after c s (disable_timeout c tid keep_indicator s)"
    by (intro ends_well_invariants_hold ends_well_disable_timeout)
next
  assume "\<forall>t \<in> set dts. registered c s (dtp_id t)"
  with assms show "invariants_hold_after c s (disable_timeouts c dts s)"
    by (intro ends_well_invariants_hold ends_well_disable_timeouts)
next
  from assms show "invariants_hold_after c s (disable_all_timeouts c keep_indicator s)"
    by (intro ends_well_invariants_hold ends_well_disable_all_timeouts)
qed

text \<open>
  The example state satisfies the invariants, with reasons 0, 1 and 3 registered; each
  mutator applied to it leaves the invariants in place, and so does a batch whose entry
  has the unrecognized type 7.
\<close>

theorem mutators_preserve_invariants_witness:
  "timeouts_inv example_platform example_state \<and>
   registered example_platform example_state 0 \<and>
   registered example_platform example_state 3 \<and>
   invariants_hold_after example_platform example_state
     (enable_timeout_after example_platform 0 30 example_state) \<and>
   invariants_hold_after example_platform example_state
     (enable_timeout_at example_platform 0 120 example_state) \<and>
   invariants_hold_after example_platform example_state
     (enable_timeouts example_platform
        [\<lparr>etp_id = 0, etp_type = TMPARAM_AFTER, etp_delay_ms = 30, etp_fin_time = 0\<rparr>,
         \<lparr>etp_id = 3, etp_type = TMPARAM_AT, etp_delay_ms = 0, etp_fin_time = 40\<rparr>]
        example_state) \<and>
   invariants_hold_after example_platform example_state
     (disable_timeout example_platform 3 False example_state) \<and>
   invariants_hold_after example_platform example_state
     (disable_timeouts example_platform
        [\<lparr>dtp_id = 3, dtp_keep_indicator = False\<rparr>, \<lparr>dtp_id = 0, dtp_keep_indicator = True\<rparr>]
        example_state) \<and>
   invariants_hold_after example_platform example_state
     (disable_all_timeouts example_platform False example_state) \<and>
   (\<exists>s'. (enable_timeouts example_platform
            [\<lparr>etp_id = 0, etp_type = TMPARAM_other 7, etp_delay_ms = 30, etp_fin_time = 0\<rparr>]
            example_state = Inr s' \<or>
          (\<exists>e. enable_timeouts example_platform
            [\<lparr>etp_id = 0, etp_type = TMPARAM_other 7, etp_delay_ms = 30, etp_fin_time = 0\<rparr>]
            example_state = Inl (e, s'))) \<and>
         timeouts_inv example_platform s')"
proof -
  have inv: "timeouts_inv example_platform example_state"
    by (simp add: timeouts_inv_def module_initialized_def queue_sorted_def queue_distinct_def
      queue_handlers_def queue_bounded_def queue_entries_def queue_def example_platform_def
      example_state_def key_less_def upt_rec)
  have reg: "registered example_platform example_state 0"
    "registered example_platform example_state 3"
    by (simp_all add: registered_def example_platform_def example_state_def)
  note m = mutators_preserve_invariants[OF inv, where tid = 0 and delay_ms = 30 and fin = 120
      and keep_indicator = False and
      ets = "[\<lparr>etp_id = 0, etp_type = TMPARAM_AFTER, etp_delay_ms = 30, etp_fin_time = 0\<rparr>,
         \<lparr>etp_id = 3, etp_type = TMPARAM_AT, etp_delay_ms = 0, etp_fin_time = 40\<rparr>]" and
      dts = "[\<lparr>dtp_id = 3, dtp_keep_indicator = False\<rparr>, \<lparr>dtp_id = 0, dtp_keep_indicator = True\<rparr>]"]
  note m3 = mutators_preserve_invariants[OF inv, where tid = 3 and keep_indicator = False]
  note m7 = mutators_preserve_invariants[OF inv, where
      ets = "[\<lparr>etp_id = 0, etp_type = TMPARAM_other 7, etp_delay_ms = 30, etp_fin_time = 0\<rparr>]"]
  show ?thesis using inv reg m m3 m7 by simp
qed

subsection \<open>Enabling twice\<close>

text \<open>
  C2. Enabling a registered reason with \<open>fin_time = t1\<close> and then again with
  \<open>fin_time = t2\<close> leaves exactly one queue entry for it, with \<open>fin_time = t2\<close>,
  \<open>start_time\<close> the \<open>now\<close> of the second call and the indicator clear: the second call
  reschedules. This holds for the internal \<open>enable_timeout(id, now, fin_time)\<close> and, when
  the timer calls succeed, for \<open>enable_timeout_at\<close>, where \<open>now\<close> is the value the clock
  gives at the second call.
\<close>

theorem enable_twice_reschedules:
  assumes "timeouts_inv c s" "registered c s tid"
  shows "(\<exists>s1 s2. enable_timeout c tid now1 t1 s = Inr s1 \<and>
                  enable_timeout c tid now2 t2 s1 = Inr s2 \<and>
                  length (filter (\<lambda>e. index e = tid) (queue_entries s2)) = 1 \<and>
                  fin_time (all_timeouts s2 ! tid) = t2 \<and>
                  start_time (all_timeouts s2 ! tid) = now2 \<and>
                  indicator (all_timeouts s2 ! tid) = False) \<and>
         ((\<forall>n. setitimer_rc s n = 0) \<longrightarrow>
          (\<exists>s1 s2. enable_timeout_at c tid t1 s = Inr s1 \<and>
                  enable_timeout_at c tid t2 s1 = Inr s2 \<and>
                  length (filter (\<lambda>e. index e = tid) (queue_entries s2)) = 1 \<and>
                  fin_time (all_timeouts s2 ! tid) = t2 \<and>
                  start_time (all_timeouts s2 ! tid) = clock s1 (clock_reads s1) \<and>
                  indicator (all_timeouts s2 ! tid) = False))"
proof -
  have one: "length (filter (\<lambda>e. index e = tid) (queue_entries s')) = 1"
    if "timeouts_inv c s'" "tid \<in> set (queue s')" for s'
  proof -
    from that(1) have ok: "queue_ok (MAX_TIMEOUTS c) (all_timeouts s') (queue s')"
      by (simp add: timeouts_inv_alt)
    then have "map index (queue_entries s') = queue s'"
      unfolding queue_entries_def by (intro map_index_queue) (auto simp: queue_ok_def)
    then have "length (filter (\<lambda>e. index e = tid) (queue_entries s')) =
        length (filter (\<lambda>p. p = tid) (queue s'))"
      by (metis (mono_tags, lifting) filter_map length_map comp_def filter_cong)
    also have "\<dots> = card ({p. p = tid} \<inter> set (queue s'))"
      using ok by (simp add: queue_ok_def distinct_length_filter)
    also have "{p. p = tid} \<inter> set (queue s') = {tid}" using that(2) by auto
    finally show ?thesis by simp
  qed
  have len: "tid < length (all_timeouts s)"
    using assms by (simp add: registered_def inv_length)
  have internal: "\<exists>s1 s2. enable_timeout c tid now1 t1 s = Inr s1 \<and>
                  enable_timeout c tid now2 t2 s1 = Inr s2 \<and>
                  length (filter (\<lambda>e. index e = tid) (queue_entries s2)) = 1 \<and>
                  fin_time (all_timeouts s2 ! tid) = t2 \<and>
                  start_time (all_timeouts s2 ! tid) = now2 \<and>
                  indicator (all_timeouts s2 ! tid) = False"
  proof -
    from enable_timeout_ok[OF assms, of now1 t1] obtain s1 where
      s1: "enable_timeout c tid now1 t1 s = Inr s1" "timeouts_inv c s1" "stable s s1"
        "all_timeouts s1 = (all_timeouts s)
             [tid := (all_timeouts s ! tid)\<lparr>indicator := False, start_time := now1, fin_time := t1\<rparr>]"
      by blast
    have reg1: "registered c s1 tid"
      using stable_registered[OF s1(3) inv_length[OF assms(1)]] assms(2) by simp
    from enable_timeout_ok[OF s1(2) reg1, of now2 t2] obtain s2 where
      s2: "enable_timeout c tid now2 t2 s1 = Inr s2" "timeouts_inv c s2"
        "set (queue s2) = insert tid (set (queue s1))"
        "all_timeouts s2 = (all_timeouts s1)
             [tid := (all_timeouts s1 ! tid)\<lparr>indicator := False, start_time := now2, fin_time := t2\<rparr>]"
      by blast
    have "tid < length (all_timeouts s1)" using len s1(4) by simp
    then have "fin_time (all_timeouts s2 ! tid) = t2" "start_time (all_timeouts s2 ! tid) = now2"
      "indicator (all_timeouts s2 ! tid) = False"
      using s2(4) by simp_all
    moreover have "length (filter (\<lambda>e. index e = tid) (queue_entries s2)) = 1"
      using one[OF s2(2)] s2(3) by simp
    ultimately show ?thesis using s1(1) s2(1) by blast
  qed
  have public: "\<exists>s1 s2. enable_timeout_at c tid t1 s = Inr s1 \<and>
                  enable_timeout_at c tid t2 s1 = Inr s2 \<and>
                  length (filter (\<lambda>e. index e = tid) (queue_entries s2)) = 1 \<and>
                  fin_time (all_timeouts s2 ! tid) = t2 \<and>
                  start_time (all_timeouts s2 ! tid) = clock s1 (clock_reads s1) \<and>
                  indicator (all_timeouts s2 ! tid) = False"
    if os: "\<forall>n. setitimer_rc s n = 0"
  proof -
    from enable_timeout_at_ok[OF assms os, of t1] obtain s1 where
      s1: "enable_timeout_at c tid t1 s = Inr s1" "timeouts_inv c s1" "stable s s1"
        "all_timeouts s1 = (all_timeouts s)
             [tid := (all_timeouts s ! tid)
                \<lparr>indicator := False, start_time := clock s (clock_reads s), fin_time := t1\<rparr>]"
      by blast
    have reg1: "registered c s1 tid"
      using stable_registered[OF s1(3) inv_length[OF assms(1)]] assms(2) by simp
    have os1: "\<forall>n. setitimer_rc s1 n = 0" using os s1(3) by (simp add: stable_def)
    from enable_timeout_at_ok[OF s1(2) reg1 os1, of t2] obtain s2 where
      s2: "enable_timeout_at c tid t2 s1 = Inr s2" "timeouts_inv c s2"
        "set (queue s2) = insert tid (set (queue s1))"
        "all_timeouts s2 = (all_timeouts s1)
             [tid := (all_timeouts s1 ! tid)
                \<lparr>indicator := False, start_time := clock s1 (clock_reads s1), fin_time := t2\<rparr>]"
      by blast
    have "tid < length (all_timeouts s1)" using len s1(4) by simp
    then have "fin_time (all_timeouts s2 ! tid) = t2"
      "start_time (all_timeouts s2 ! tid) = clock s1 (clock_reads s1)"
      "indicator (all_timeouts s2 ! tid) = False"
      using s2(4) by simp_all
    moreover have "length (filter (\<lambda>e. index e = tid) (queue_entries s2)) = 1"
      using one[OF s2(2)] s2(3) by simp
    ultimately show ?thesis using s1(1) s2(1) by blast
  qed
  show ?thesis using internal public by blast
qed

text \<open>
  In the example state reason 3 is active and due at 200; enabling it for 300 and then
  for 40 leaves it queued once, due at 40.
\<close>

theorem enable_twice_reschedules_witness:
  "timeouts_inv example_platform example_state \<and>
   registered example_platform example_state 3 \<and>
   (\<exists>s1 s2. enable_timeout example_platform 3 100 300 example_state = Inr s1 \<and>
            enable_timeout example_platform 3 101 40 s1 = Inr s2 \<and>
            length (filter (\<lambda>e. index e = 3) (queue_entries s2)) = 1 \<and>
            fin_time (all_timeouts s2 ! 3) = 40 \<and>
            start_time (all_timeouts s2 ! 3) = 101 \<and>
            indicator (all_timeouts s2 ! 3) = False) \<and>
   (\<forall>n. setitimer_rc example_state n = 0) \<and>
   (\<exists>s1 s2. enable_timeout_at example_platform 3 300 example_state = Inr s1 \<and>
            enable_timeout_at example_platform 3 40 s1 = Inr s2 \<and>
            length (filter (\<lambda>e. index e = 3) (queue_entries s2)) = 1 \<and>
            fin_time (all_timeouts s2 ! 3) = 40 \<and>
            start_time (all_timeouts s2 ! 3) = clock s1 (clock_reads s1) \<and>
            indicator (all_timeouts s2 ! 3) = False)"
proof -
  have inv: "timeouts_inv example_platform example_state"
    by (simp add: timeouts_inv_def module_initialized_def queue_sorted_def queue_distinct_def
      queue_handlers_def queue_bounded_def queue_entries_def queue_def example_platform_def
      example_state_def key_less_def upt_rec)
  have reg: "registered example_platform example_state 3"
    by (simp add: registered_def example_platform_def example_state_def)
  have os: "\<forall>n. setitimer_rc example_state n = 0" by (simp add: example_state_def)
  show ?thesis
    using inv reg os enable_twice_reschedules[OF inv reg, of 100 300 101 40]
    by blast
qed

subsection \<open>Disabling twice\<close>

text \<open>
  C3. For a registered reason, and with the timer calls succeeding,
  \<open>disable_timeout(id, keep_indicator)\<close> is idempotent: a second call in succession
  leaves the variables of the module (\<open>all_timeouts\<close>, \<open>all_timeouts_initialized\<close>,
  \<open>num_active_timeouts\<close>, \<open>active_timeouts\<close>) as the first call left them; what the
  second call adds is its own timer calls and clock read. Disabling a reason that is not
  in the active queue is not an error: the call returns, the queue is unchanged, and with
  \<open>keep_indicator\<close> false the entry's indicator is clear afterwards.
\<close>

theorem disable_timeout_idempotent:
  assumes "timeouts_inv c s" "registered c s tid" "\<forall>n. setitimer_rc s n = 0"
  shows "(\<exists>s1 s2. disable_timeout c tid keep s = Inr s1 \<and>
                  disable_timeout c tid keep s1 = Inr s2 \<and>
                  all_timeouts s2 = all_timeouts s1 \<and>
                  all_timeouts_initialized s2 = all_timeouts_initialized s1 \<and>
                  num_active_timeouts s2 = num_active_timeouts s1 \<and>
                  active_timeouts s2 = active_timeouts s1) \<and>
         (tid \<notin> set (queue s) \<longrightarrow>
            (\<exists>s1. disable_timeout c tid keep s = Inr s1 \<and>
                  active_timeouts s1 = active_timeouts s \<and>
                  num_active_timeouts s1 = num_active_timeouts s \<and>
                  queue s1 = queue s \<and>
                  all_timeouts s1 =
                    (if keep then all_timeouts s
                     else (all_timeouts s)[tid := (all_timeouts s ! tid)\<lparr>indicator := False\<rparr>]) \<and>
                  (\<not> keep \<longrightarrow> indicator (all_timeouts s1 ! tid) = False)))"
proof -
  have len: "tid < length (all_timeouts s)"
    using assms by (simp add: registered_def inv_length)
  from disable_timeout_ok[OF assms, of keep] obtain s1 where
    s1: "disable_timeout c tid keep s = Inr s1" "timeouts_inv c s1" "stable s s1"
      "queue s1 = removeAll tid (queue s)"
      "all_timeouts s1 =
             (if keep then all_timeouts s
              else (all_timeouts s)[tid := (all_timeouts s ! tid)\<lparr>indicator := False\<rparr>])"
      "tid \<notin> set (queue s) \<longrightarrow>
              active_timeouts s1 = active_timeouts s \<and>
              num_active_timeouts s1 = num_active_timeouts s"
    by blast
  have reg1: "registered c s1 tid"
    using stable_registered[OF s1(3) inv_length[OF assms(1)]] assms(2) by simp
  have os1: "\<forall>n. setitimer_rc s1 n = 0" using assms(3) s1(3) by (simp add: stable_def)
  from disable_timeout_ok[OF s1(2) reg1 os1, of keep] obtain s2 where
    s2: "disable_timeout c tid keep s1 = Inr s2" "stable s1 s2"
      "all_timeouts s2 =
             (if keep then all_timeouts s1
              else (all_timeouts s1)[tid := (all_timeouts s1 ! tid)\<lparr>indicator := False\<rparr>])"
      "tid \<notin> set (queue s1) \<longrightarrow>
              active_timeouts s2 = active_timeouts s1 \<and>
              num_active_timeouts s2 = num_active_timeouts s1"
    by blast
  have "tid \<notin> set (queue s1)" by (simp add: s1(4))
  then have a: "active_timeouts s2 = active_timeouts s1"
    "num_active_timeouts s2 = num_active_timeouts s1" using s2(4) by simp_all
  have b: "all_timeouts s2 = all_timeouts s1" using s2(3) s1(5) len by simp
  have c: "all_timeouts_initialized s2 = all_timeouts_initialized s1"
    using s2(2) by (simp add: stable_def)
  have twice: "\<exists>s1 s2. disable_timeout c tid keep s = Inr s1 \<and>
                  disable_timeout c tid keep s1 = Inr s2 \<and>
                  all_timeouts s2 = all_timeouts s1 \<and>
                  all_timeouts_initialized s2 = all_timeouts_initialized s1 \<and>
                  num_active_timeouts s2 = num_active_timeouts s1 \<and>
                  active_timeouts s2 = active_timeouts s1"
    using s1(1) s2(1) a b c by blast
  have idle: "\<exists>s1. disable_timeout c tid keep s = Inr s1 \<and>
                  active_timeouts s1 = active_timeouts s \<and>
                  num_active_timeouts s1 = num_active_timeouts s \<and>
                  queue s1 = queue s \<and>
                  all_timeouts s1 =
                    (if keep then all_timeouts s
                     else (all_timeouts s)[tid := (all_timeouts s ! tid)\<lparr>indicator := False\<rparr>]) \<and>
                  (\<not> keep \<longrightarrow> indicator (all_timeouts s1 ! tid) = False)"
    if "tid \<notin> set (queue s)"
  proof -
    have "queue s1 = queue s" using that s1(4) by simp
    moreover have "\<not> keep \<longrightarrow> indicator (all_timeouts s1 ! tid) = False"
      using s1(5) len by simp
    ultimately show ?thesis using s1(1,5,6) that by blast
  qed
  show ?thesis using twice idle by blast
qed

text \<open>
  In the example state reason 0 is registered, idle, and its indicator is set; reason 3 is
  active.
\<close>

theorem disable_timeout_idempotent_witness:
  "timeouts_inv example_platform example_state \<and>
   registered example_platform example_state 0 \<and>
   registered example_platform example_state 3 \<and>
   (\<forall>n. setitimer_rc example_state n = 0) \<and>
   0 \<notin> set (queue example_state) \<and>
   (\<exists>s1. disable_timeout example_platform 0 False example_state = Inr s1 \<and>
         queue s1 = queue example_state \<and>
         indicator (all_timeouts s1 ! 0) = False) \<and>
   (\<exists>s1 s2. disable_timeout example_platform 3 False example_state = Inr s1 \<and>
            disable_timeout example_platform 3 False s1 = Inr s2 \<and>
            all_timeouts s2 = all_timeouts s1 \<and>
            num_active_timeouts s2 = num_active_timeouts s1 \<and>
            active_timeouts s2 = active_timeouts s1)"
proof -
  have inv: "timeouts_inv example_platform example_state"
    by (simp add: timeouts_inv_def module_initialized_def queue_sorted_def queue_distinct_def
      queue_handlers_def queue_bounded_def queue_entries_def queue_def example_platform_def
      example_state_def key_less_def upt_rec)
  have reg: "registered example_platform example_state 0"
    "registered example_platform example_state 3"
    by (simp_all add: registered_def example_platform_def example_state_def)
  have os: "\<forall>n. setitimer_rc example_state n = 0" by (simp add: example_state_def)
  have idle: "0 \<notin> set (queue example_state)" by (simp add: queue_def example_state_def)
  show ?thesis
    using inv reg os idle
      disable_timeout_idempotent[OF inv reg(1) os, of False]
      disable_timeout_idempotent[OF inv reg(2) os, of False]
    by blast
qed

subsection \<open>Enabling a batch\<close>

text \<open>
  C9. \<open>enable_timeouts(timeouts, count)\<close>, from a state with the invariants, with the
  identifiers registered and the timer calls succeeding. It starts with
  \<open>disable_alarm(count > 1)\<close> and reads the clock once. When every entry has type AFTER or
  AT, it enables each entry in turn with the time the entry asks for (\<open>now + delay_ms\<close>
  for AFTER, the supplied \<open>fin_time\<close> for AT), all with the one \<open>now\<close>, and ends with
  \<open>schedule_alarm(now)\<close> on the state so reached; the log shows the disarming call (if
  any), the one clock read, and then at most the one arming call. An entry of another type,
  after entries of type AFTER or AT, ends the call in the ERROR.
\<close>

theorem enable_timeouts_batch:
  assumes "timeouts_inv c s" "\<forall>t \<in> set ts. registered c s (etp_id t)"
    "\<forall>n. setitimer_rc s n = 0"
  shows "((\<forall>t \<in> set ts. known_type t) \<longrightarrow>
          (\<exists>s0 s2 s'.
             disable_alarm (length ts > 1) s = Inr s0 \<and>
             enable_all c (clock s (clock_reads s)) ts (after_clock_read s0) = Inr s2 \<and>
             schedule_alarm c (clock s (clock_reads s)) s2 = Inr s' \<and>
             enable_timeouts c ts s = Inr s' \<and>
             clock_reads s' = Suc (clock_reads s) \<and>
             trace s' = trace s @
               (if length ts > 1 \<or> num_active_timeouts s > 0 then [Ev_setitimer 0 0] else []) @
               [Ev_GetCurrentTimestamp (clock s (clock_reads s))] @
               (if num_active_timeouts s2 > 0
                then [Ev_setitimer (fst (alarm_value c (clock s (clock_reads s)) s2))
                                   (snd (alarm_value c (clock s (clock_reads s)) s2))]
                else []) \<and>
             (ts \<noteq> [] \<longrightarrow> num_active_timeouts s2 > 0) \<and>
             set (queue s') = set (queue s) \<union> etp_id ` set ts \<and>
             (\<forall>t \<in> set ts. start_time (all_timeouts s' ! etp_id t) = clock s (clock_reads s) \<and>
                            indicator (all_timeouts s' ! etp_id t) = False) \<and>
             (distinct (map etp_id ts) \<longrightarrow>
                (\<forall>t \<in> set ts. fin_time (all_timeouts s' ! etp_id t) =
                                 entry_fin_time (clock s (clock_reads s)) t)))) \<and>
         (\<forall>pre t post v.
            ts = pre @ t # post \<and> (\<forall>u \<in> set pre. known_type u) \<and> etp_type t = TMPARAM_other v \<longrightarrow>
            (\<exists>s_err. enable_timeouts c ts s =
                       Inl (ERROR_unrecognized_timeout_type (TMPARAM_other v), s_err)))"
proof -
  let ?now = "clock s (clock_reads s)"
  from enable_timeouts_unfold[of s ts c] assms(3) obtain s0 where
    s0: "disable_alarm (length ts > 1) s = Inr s0"
      "s0 = (if length ts > 1 \<or> num_active_timeouts s > 0 then after_setitimer (0, 0) s else s)"
      "enable_timeouts c ts s =
             and_then (enable_each c ?now ts (after_clock_read s0)) (schedule_alarm c ?now)"
    by auto
  define s1 where "s1 = after_clock_read s0"
  have s1: "timeouts_inv c s1" "stable s s1" "queue s1 = queue s" "clock_reads s1 = Suc (clock_reads s)"
    "trace s1 = trace s @
               (if length ts > 1 \<or> num_active_timeouts s > 0 then [Ev_setitimer 0 0] else []) @
               [Ev_GetCurrentTimestamp ?now]"
    using assms(1) by (simp_all add: s1_def s0(2))
  have reg1: "\<And>us. set us \<subseteq> set ts \<Longrightarrow> \<forall>t \<in> set us. registered c s1 (etp_id t)"
    using assms(2) by (auto simp: s1_def s0(2))
  have normal: "\<exists>s0 s2 s'.
             disable_alarm (length ts > 1) s = Inr s0 \<and>
             enable_all c ?now ts (after_clock_read s0) = Inr s2 \<and>
             schedule_alarm c ?now s2 = Inr s' \<and>
             enable_timeouts c ts s = Inr s' \<and>
             clock_reads s' = Suc (clock_reads s) \<and>
             trace s' = trace s @
               (if length ts > 1 \<or> num_active_timeouts s > 0 then [Ev_setitimer 0 0] else []) @
               [Ev_GetCurrentTimestamp ?now] @
               (if num_active_timeouts s2 > 0
                then [Ev_setitimer (fst (alarm_value c ?now s2)) (snd (alarm_value c ?now s2))]
                else []) \<and>
             (ts \<noteq> [] \<longrightarrow> num_active_timeouts s2 > 0) \<and>
             set (queue s') = set (queue s) \<union> etp_id ` set ts \<and>
             (\<forall>t \<in> set ts. start_time (all_timeouts s' ! etp_id t) = ?now \<and>
                            indicator (all_timeouts s' ! etp_id t) = False) \<and>
             (distinct (map etp_id ts) \<longrightarrow>
                (\<forall>t \<in> set ts. fin_time (all_timeouts s' ! etp_id t) = entry_fin_time ?now t))"
    if known: "\<forall>t \<in> set ts. known_type t"
  proof -
    from enable_all_ok[OF s1(1) reg1[OF subset_refl], of ?now] obtain s2 where
      s2: "enable_all c ?now ts s1 = Inr s2" "timeouts_inv c s2" "stable s1 s2"
        "set (queue s2) = set (queue s1) \<union> etp_id ` set ts"
        "trace s2 = trace s1" "clock_reads s2 = clock_reads s1"
        "\<forall>t \<in> set ts. start_time (all_timeouts s2 ! etp_id t) = ?now \<and>
                          indicator (all_timeouts s2 ! etp_id t) = False"
        "distinct (map etp_id ts) \<longrightarrow>
              (\<forall>t \<in> set ts. fin_time (all_timeouts s2 ! etp_id t) = entry_fin_time ?now t)"
      by blast
    have rc2: "setitimer_rc s2 = setitimer_rc s"
      using s1(2) s2(3) by (simp add: stable_def)
    define s' where "s' = (if num_active_timeouts s2 > 0
        then after_setitimer (alarm_value c ?now s2) s2 else s2)"
    have r3: "schedule_alarm c ?now s2 = Inr s'"
      using assms(3) rc2 by (simp add: schedule_alarm_eq s'_def)
    have r2: "enable_all c ?now ts (after_clock_read s0) = Inr s2" using s2(1) by (simp add: s1_def)
    have r4: "enable_timeouts c ts s = Inr s'"
      using s0(3) enable_each_known[OF known, of c ?now s1] s2(1) r3 by (simp add: s1_def)
    have r5: "clock_reads s' = Suc (clock_reads s)" using s2(6) s1(4) by (simp add: s'_def)
    have r6: "trace s' = trace s @
               (if length ts > 1 \<or> num_active_timeouts s > 0 then [Ev_setitimer 0 0] else []) @
               [Ev_GetCurrentTimestamp ?now] @
               (if num_active_timeouts s2 > 0
                then [Ev_setitimer (fst (alarm_value c ?now s2)) (snd (alarm_value c ?now s2))]
                else [])"
      using s2(5) s1(5) by (simp add: s'_def)
    have r7: "ts \<noteq> [] \<longrightarrow> num_active_timeouts s2 > 0"
    proof
      assume "ts \<noteq> []"
      then have "set (queue s2) \<noteq> {}" using s2(4) by simp
      then show "num_active_timeouts s2 > 0" by (rule queue_nonempty_active)
    qed
    have r8: "set (queue s') = set (queue s) \<union> etp_id ` set ts"
      using s2(4) s1(3) by (simp add: s'_def)
    have r9: "\<forall>t \<in> set ts. start_time (all_timeouts s' ! etp_id t) = ?now \<and>
                          indicator (all_timeouts s' ! etp_id t) = False"
      using s2(7) by (simp add: s'_def)
    have r10: "distinct (map etp_id ts) \<longrightarrow>
              (\<forall>t \<in> set ts. fin_time (all_timeouts s' ! etp_id t) = entry_fin_time ?now t)"
      using s2(8) by (simp add: s'_def)
    show ?thesis
      by (intro exI[of _ s0] exI[of _ s2] exI[of _ s'] conjI) (fact s0(1) r2 r3 r4 r5 r6 r7 r8 r9 r10)+
  qed
  have err: "\<exists>s_err. enable_timeouts c ts s =
                       Inl (ERROR_unrecognized_timeout_type (TMPARAM_other v), s_err)"
    if split: "ts = pre @ t # post" and known: "\<forall>u \<in> set pre. known_type u"
      and other: "etp_type t = TMPARAM_other v" for pre t post v
  proof -
    have "set pre \<subseteq> set ts" using split by auto
    from enable_all_ok[OF s1(1) reg1[OF this], of ?now] obtain s2 where
      s2: "enable_all c ?now pre s1 = Inr s2" by blast
    have "enable_each c ?now ts s1 = Inl (ERROR_unrecognized_timeout_type (TMPARAM_other v), s2)"
      using enable_each_known[OF known, of c ?now s1] s2 other
      by (simp add: split enable_each_append)
    then show ?thesis using s0(3) by (simp add: s1_def)
  qed
  show ?thesis using normal err by blast
qed

text \<open>
  The batch of reason 0 after 50 ms and reason 3 at 110, on the example state, where the
  clock reads 100.
\<close>

theorem enable_timeouts_batch_witness:
  "timeouts_inv example_platform example_state \<and>
   registered example_platform example_state 0 \<and>
   registered example_platform example_state 3 \<and>
   (\<forall>n. setitimer_rc example_state n = 0) \<and>
   known_type \<lparr>etp_id = 0, etp_type = TMPARAM_AFTER, etp_delay_ms = 50, etp_fin_time = 0\<rparr> \<and>
   known_type \<lparr>etp_id = 3, etp_type = TMPARAM_AT, etp_delay_ms = 0, etp_fin_time = 110\<rparr> \<and>
   (\<exists>s'. enable_timeouts example_platform
           [\<lparr>etp_id = 0, etp_type = TMPARAM_AFTER, etp_delay_ms = 50, etp_fin_time = 0\<rparr>,
            \<lparr>etp_id = 3, etp_type = TMPARAM_AT, etp_delay_ms = 0, etp_fin_time = 110\<rparr>]
           example_state = Inr s' \<and>
         clock_reads s' = 1 \<and>
         set (queue s') = {0, 1, 3} \<and>
         fin_time (all_timeouts s' ! 0) = 50100 \<and>
         fin_time (all_timeouts s' ! 3) = 110 \<and>
         start_time (all_timeouts s' ! 0) = 100 \<and>
         start_time (all_timeouts s' ! 3) = 100) \<and>
   (\<exists>s_err. enable_timeouts example_platform
           [\<lparr>etp_id = 0, etp_type = TMPARAM_AFTER, etp_delay_ms = 50, etp_fin_time = 0\<rparr>,
            \<lparr>etp_id = 3, etp_type = TMPARAM_other 7, etp_delay_ms = 0, etp_fin_time = 110\<rparr>]
           example_state = Inl (ERROR_unrecognized_timeout_type (TMPARAM_other 7), s_err))"
proof -
  let ?bad = "[\<lparr>etp_id = 0, etp_type = TMPARAM_AFTER, etp_delay_ms = 50, etp_fin_time = 0\<rparr>,
            \<lparr>etp_id = 3, etp_type = TMPARAM_other 7, etp_delay_ms = 0, etp_fin_time = 110\<rparr>]"
  let ?ts = "[\<lparr>etp_id = 0, etp_type = TMPARAM_AFTER, etp_delay_ms = 50, etp_fin_time = 0\<rparr>,
            \<lparr>etp_id = 3, etp_type = TMPARAM_AT, etp_delay_ms = 0, etp_fin_time = 110\<rparr>]"
  have inv: "timeouts_inv example_platform example_state"
    by (simp add: timeouts_inv_def module_initialized_def queue_sorted_def queue_distinct_def
      queue_handlers_def queue_bounded_def queue_entries_def queue_def example_platform_def
      example_state_def key_less_def upt_rec)
  have reg: "registered example_platform example_state 0"
    "registered example_platform example_state 3"
    by (simp_all add: registered_def example_platform_def example_state_def)
  then have regs: "\<forall>t \<in> set ?ts. registered example_platform example_state (etp_id t)" by simp
  have os: "\<forall>n. setitimer_rc example_state n = 0" by (simp add: example_state_def)
  have known: "known_type \<lparr>etp_id = 0, etp_type = TMPARAM_AFTER, etp_delay_ms = 50, etp_fin_time = 0\<rparr>"
    "known_type \<lparr>etp_id = 3, etp_type = TMPARAM_AT, etp_delay_ms = 0, etp_fin_time = 110\<rparr>"
    by (simp_all add: known_type_def)
  then have knowns: "\<forall>t \<in> set ?ts. known_type t" by simp
  have facts: "clock example_state (clock_reads example_state) = 100"
    "set (queue example_state) = {1, 3}" "distinct (map etp_id ?ts)"
    "entry_fin_time 100 \<lparr>etp_id = 0, etp_type = TMPARAM_AFTER, etp_delay_ms = 50, etp_fin_time = 0\<rparr> = 50100"
    "entry_fin_time 100 \<lparr>etp_id = 3, etp_type = TMPARAM_AT, etp_delay_ms = 0, etp_fin_time = 110\<rparr> = 110"
    by (auto simp: example_state_def queue_def entry_fin_time_def TimestampTzPlusMilliseconds_def)
  from enable_timeouts_batch[OF inv regs os] knowns obtain s' where
    s': "enable_timeouts example_platform ?ts example_state = Inr s'"
      "clock_reads s' = Suc (clock_reads example_state)"
      "set (queue s') = set (queue example_state) \<union> etp_id ` set ?ts"
      "\<forall>t \<in> set ?ts. start_time (all_timeouts s' ! etp_id t) =
          clock example_state (clock_reads example_state) \<and>
          indicator (all_timeouts s' ! etp_id t) = False"
      "distinct (map etp_id ?ts) \<longrightarrow>
         (\<forall>t \<in> set ?ts. fin_time (all_timeouts s' ! etp_id t) =
            entry_fin_time (clock example_state (clock_reads example_state)) t)"
    by blast
  have "clock_reads s' = 1" using s'(2) by (simp add: example_state_def)
  moreover have "set (queue s') = {0, 1, 3}" using s'(3) facts(2) by auto
  moreover have "fin_time (all_timeouts s' ! 0) = 50100" "fin_time (all_timeouts s' ! 3) = 110"
    using s'(5) facts by simp_all
  moreover have "start_time (all_timeouts s' ! 0) = 100" "start_time (all_timeouts s' ! 3) = 100"
    using s'(4) facts(1) by simp_all
  moreover have "\<exists>s_err. enable_timeouts example_platform ?bad example_state =
      Inl (ERROR_unrecognized_timeout_type (TMPARAM_other 7), s_err)"
  proof -
    have regs': "\<forall>t \<in> set ?bad. registered example_platform example_state (etp_id t)"
      using reg by simp
    have "?bad = [\<lparr>etp_id = 0, etp_type = TMPARAM_AFTER, etp_delay_ms = 50, etp_fin_time = 0\<rparr>] @
        \<lparr>etp_id = 3, etp_type = TMPARAM_other 7, etp_delay_ms = 0, etp_fin_time = 110\<rparr> # [] \<and>
      (\<forall>u \<in> set [\<lparr>etp_id = 0, etp_type = TMPARAM_AFTER, etp_delay_ms = 50, etp_fin_time = 0\<rparr>].
          known_type u) \<and>
      etp_type \<lparr>etp_id = 3, etp_type = TMPARAM_other 7, etp_delay_ms = 0, etp_fin_time = 110\<rparr> =
        TMPARAM_other 7"
      using known(1) by simp
    with enable_timeouts_batch[OF inv regs' os] show ?thesis by blast
  qed
  ultimately show ?thesis using inv reg os known s'(1) by blast
qed

subsection \<open>A batch with an unrecognized type\<close>

text \<open>
  C10. When the entry at position \<open>k\<close> of the batch has a type that is neither AFTER nor
  AT (and the entries before it are of these types, with registered identifiers),
  \<open>enable_timeouts\<close> raises the ERROR in the state reached by enabling exactly the
  entries before \<open>k\<close>: their identifiers are in the active queue, nothing of the entries
  from \<open>k\<close> on has been done, and \<open>schedule_alarm\<close> has not been called: the log ends
  with the clock read, after the disarming call of \<open>disable_alarm\<close> if there was one. The
  queue is not empty if it was not before or if \<open>k > 0\<close>, yet no call has armed the timer.
\<close>

theorem enable_timeouts_error_not_atomic:
  assumes "timeouts_inv c s" "setitimer_rc s (setitimer_calls s) = 0"
    "\<forall>u \<in> set pre. registered c s (etp_id u) \<and> known_type u"
    "etp_type t = TMPARAM_other v"
  shows "\<exists>s0 s_err.
           disable_alarm (length (pre @ t # post) > 1) s = Inr s0 \<and>
           enable_all c (clock s (clock_reads s)) pre (after_clock_read s0) = Inr s_err \<and>
           enable_timeouts c (pre @ t # post) s =
             Inl (ERROR_unrecognized_timeout_type (TMPARAM_other v), s_err) \<and>
           timeouts_inv c s_err \<and>
           set (queue s_err) = set (queue s) \<union> etp_id ` set pre \<and>
           (\<forall>u \<in> set pre. start_time (all_timeouts s_err ! etp_id u) = clock s (clock_reads s)) \<and>
           (\<forall>k. k \<notin> etp_id ` set pre \<longrightarrow> all_timeouts s_err ! k = all_timeouts s ! k) \<and>
           trace s_err = trace s @
             (if length (pre @ t # post) > 1 \<or> num_active_timeouts s > 0
              then [Ev_setitimer 0 0] else []) @
             [Ev_GetCurrentTimestamp (clock s (clock_reads s))] \<and>
           (pre \<noteq> [] \<or> num_active_timeouts s > 0 \<longrightarrow> num_active_timeouts s_err > 0)"
proof -
  let ?now = "clock s (clock_reads s)" and ?ts = "pre @ t # post"
  from enable_timeouts_unfold[OF assms(2), of ?ts c] obtain s0 where
    s0: "disable_alarm (length ?ts > 1) s = Inr s0"
      "s0 = (if length ?ts > 1 \<or> num_active_timeouts s > 0 then after_setitimer (0, 0) s else s)"
      "enable_timeouts c ?ts s =
             and_then (enable_each c ?now ?ts (after_clock_read s0)) (schedule_alarm c ?now)"
    by auto
  define s1 where "s1 = after_clock_read s0"
  have s1: "timeouts_inv c s1" "queue s1 = queue s" "all_timeouts s1 = all_timeouts s"
    "num_active_timeouts s1 = num_active_timeouts s"
    "trace s1 = trace s @
               (if length ?ts > 1 \<or> num_active_timeouts s > 0 then [Ev_setitimer 0 0] else []) @
               [Ev_GetCurrentTimestamp ?now]"
    using assms(1) by (simp_all add: s1_def s0(2))
  have reg1: "\<forall>u \<in> set pre. registered c s1 (etp_id u)"
    using assms(3) by (auto simp: s1_def s0(2))
  have known: "\<forall>u \<in> set pre. known_type u" using assms(3) by simp
  from enable_all_ok[OF s1(1) reg1, of ?now] obtain s2 where
    s2: "enable_all c ?now pre s1 = Inr s2" "timeouts_inv c s2"
      "set (queue s2) = set (queue s1) \<union> etp_id ` set pre"
      "trace s2 = trace s1"
      "\<forall>u \<in> set pre. start_time (all_timeouts s2 ! etp_id u) = ?now \<and>
                          indicator (all_timeouts s2 ! etp_id u) = False"
      "\<forall>k. k \<notin> etp_id ` set pre \<longrightarrow> all_timeouts s2 ! k = all_timeouts s1 ! k"
    by blast
  have "enable_each c ?now ?ts s1 = Inl (ERROR_unrecognized_timeout_type (TMPARAM_other v), s2)"
    using enable_each_known[OF known, of c ?now s1] s2(1) assms(4)
    by (simp add: enable_each_append)
  then have r3: "enable_timeouts c ?ts s =
      Inl (ERROR_unrecognized_timeout_type (TMPARAM_other v), s2)"
    using s0(3) by (simp add: s1_def)
  have r2: "enable_all c ?now pre (after_clock_read s0) = Inr s2" using s2(1) by (simp add: s1_def)
  have r5: "set (queue s2) = set (queue s) \<union> etp_id ` set pre" using s2(3) s1(2) by simp
  have r6: "\<forall>u \<in> set pre. start_time (all_timeouts s2 ! etp_id u) = ?now" using s2(5) by simp
  have r7: "\<forall>k. k \<notin> etp_id ` set pre \<longrightarrow> all_timeouts s2 ! k = all_timeouts s ! k"
    using s2(6) s1(3) by simp
  have r8: "trace s2 = trace s @
             (if length ?ts > 1 \<or> num_active_timeouts s > 0 then [Ev_setitimer 0 0] else []) @
             [Ev_GetCurrentTimestamp ?now]"
    using s2(4) s1(5) by simp
  have r9: "pre \<noteq> [] \<or> num_active_timeouts s > 0 \<longrightarrow> num_active_timeouts s2 > 0"
  proof
    assume a: "pre \<noteq> [] \<or> num_active_timeouts s > 0"
    have "set (queue s2) \<noteq> {}"
    proof (cases "pre = []")
      case False
      then show ?thesis using r5 by simp
    next
      case True
      with a have "num_active_timeouts s > 0" by simp
      moreover have "length (queue s) = nat (num_active_timeouts s)"
        using assms(1) by (intro length_queue) (simp add: timeouts_inv_alt)
      ultimately have "queue s \<noteq> []" by auto
      then show ?thesis using r5 by simp
    qed
    then show "num_active_timeouts s2 > 0" by (rule queue_nonempty_active)
  qed
  show ?thesis
    by (intro exI[of _ s0] exI[of _ s2] conjI) (fact s0(1) r2 r3 s2(2) r5 r6 r7 r8 r9)+
qed

text \<open>
  On the example state: reason 0 after 50 ms, then an entry of type 7, then reason 3. The
  call ends in the ERROR with reason 0 queued, and the only timer call is the disarming
  one.
\<close>

theorem enable_timeouts_error_not_atomic_witness:
  "timeouts_inv example_platform example_state \<and>
   setitimer_rc example_state (setitimer_calls example_state) = 0 \<and>
   registered example_platform example_state 0 \<and>
   known_type \<lparr>etp_id = 0, etp_type = TMPARAM_AFTER, etp_delay_ms = 50, etp_fin_time = 0\<rparr> \<and>
   (\<exists>s_err. enable_timeouts example_platform
           [\<lparr>etp_id = 0, etp_type = TMPARAM_AFTER, etp_delay_ms = 50, etp_fin_time = 0\<rparr>,
            \<lparr>etp_id = 2, etp_type = TMPARAM_other 7, etp_delay_ms = 0, etp_fin_time = 0\<rparr>,
            \<lparr>etp_id = 3, etp_type = TMPARAM_AT, etp_delay_ms = 0, etp_fin_time = 110\<rparr>]
           example_state = Inl (ERROR_unrecognized_timeout_type (TMPARAM_other 7), s_err) \<and>
         set (queue s_err) = {0, 1, 3} \<and>
         all_timeouts s_err ! 3 = all_timeouts example_state ! 3 \<and>
         trace s_err = [Ev_setitimer 0 0, Ev_GetCurrentTimestamp 100] \<and>
         num_active_timeouts s_err > 0)"
proof -
  let ?t0 = "\<lparr>etp_id = 0, etp_type = TMPARAM_AFTER, etp_delay_ms = 50, etp_fin_time = 0\<rparr>"
  let ?t1 = "\<lparr>etp_id = 2, etp_type = TMPARAM_other 7, etp_delay_ms = 0, etp_fin_time = 0\<rparr>"
  let ?t2 = "\<lparr>etp_id = 3, etp_type = TMPARAM_AT, etp_delay_ms = 0, etp_fin_time = 110\<rparr>"
  have inv: "timeouts_inv example_platform example_state"
    by (simp add: timeouts_inv_def module_initialized_def queue_sorted_def queue_distinct_def
      queue_handlers_def queue_bounded_def queue_entries_def queue_def example_platform_def
      example_state_def key_less_def upt_rec)
  have os: "setitimer_rc example_state (setitimer_calls example_state) = 0"
    by (simp add: example_state_def)
  have reg: "registered example_platform example_state 0"
    by (simp add: registered_def example_platform_def example_state_def)
  have known: "known_type ?t0" by (simp add: known_type_def)
  have pre: "\<forall>u \<in> set [?t0]. registered example_platform example_state (etp_id u) \<and> known_type u"
    using reg known by simp
  have ty: "etp_type ?t1 = TMPARAM_other 7" by simp
  have facts: "clock example_state (clock_reads example_state) = 100"
    "set (queue example_state) = {1, 3}" "trace example_state = []"
    "num_active_timeouts example_state > 0"
    by (auto simp: example_state_def queue_def)
  from enable_timeouts_error_not_atomic[OF inv os pre ty, of "[?t2]"] obtain s_err where
    e: "enable_timeouts example_platform ([?t0] @ ?t1 # [?t2]) example_state =
             Inl (ERROR_unrecognized_timeout_type (TMPARAM_other 7), s_err)"
       "set (queue s_err) = set (queue example_state) \<union> etp_id ` set [?t0]"
       "\<forall>k. k \<notin> etp_id ` set [?t0] \<longrightarrow> all_timeouts s_err ! k = all_timeouts example_state ! k"
       "trace s_err = trace example_state @
             (if length ([?t0] @ ?t1 # [?t2]) > 1 \<or> num_active_timeouts example_state > 0
              then [Ev_setitimer 0 0] else []) @
             [Ev_GetCurrentTimestamp (clock example_state (clock_reads example_state))]"
       "[?t0] \<noteq> [] \<or> num_active_timeouts example_state > 0 \<longrightarrow> num_active_timeouts s_err > 0"
    by blast
  have "enable_timeouts example_platform [?t0, ?t1, ?t2] example_state =
             Inl (ERROR_unrecognized_timeout_type (TMPARAM_other 7), s_err)"
    using e(1) by simp
  moreover have "set (queue s_err) = {0, 1, 3}" using e(2) facts(2) by auto
  moreover have "all_timeouts s_err ! 3 = all_timeouts example_state ! 3" using e(3) by simp
  moreover have "trace s_err = [Ev_setitimer 0 0, Ev_GetCurrentTimestamp 100]"
    using e(4) facts(1,3) by simp
  moreover have "num_active_timeouts s_err > 0" using e(5) by simp
  ultimately show ?thesis using inv os reg known by blast
qed

subsection \<open>The signal handler\<close>

text \<open>
  C4. A delivery of the timer interrupt with \<open>num_active_timeouts > 0\<close>, in a state with
  the invariants. For callbacks of any kind, one turn of the loop, taken while a timeout
  is active and the head of the queue is due (\<open>fin_time \<le> now\<close>), removes the head from
  the queue, sets its indicator, calls its handler and, when the handler returns, reads
  the clock again; otherwise the loop ends, and when the loop has ended \<open>schedule_alarm\<close>
  is called with the last \<open>now\<close>. When every callback returns and keeps out of the
  module, the run returns and has fired the first \<open>k\<close> entries of the queue and nothing
  else, in queue order, which is ascending in \<open>(fin_time, index)\<close>: each was due at the
  clock reading of its test, the readings being taken one after the other, and every
  entry left is due later than the last reading.
\<close>

theorem handle_sig_alarm_fires_queue_prefix:
  assumes "timeouts_inv c s" "num_active_timeouts s > 0"
  shows "(\<forall>now. if now \<ge> fin_time (all_timeouts s ! (queue s ! 0)) then
            (\<exists>s1 h. remove_timeout_index 0 s = Inr s1 \<and> queue s1 = tl (queue s) \<and>
                    timeout_handler (all_timeouts s ! (queue s ! 0)) = Some h \<and>
                    fire_pending c s now =
                      (case call_handler c h
                           (s1\<lparr>all_timeouts := (all_timeouts s)
                                 [queue s ! 0 := (all_timeouts s ! (queue s ! 0))\<lparr>indicator := True\<rparr>]\<rparr>) of
                         None \<Rightarrow> None
                       | Some (Inl e) \<Rightarrow> Some (Inl e)
                       | Some (Inr s3) \<Rightarrow>
                           fire_pending c (after_clock_read s3) (clock s3 (clock_reads s3))))
          else fire_pending c s now = Some (Inr (now, s))) \<and>
         (\<forall>now' s2.
            fire_pending c
              (after_clock_read (if MyProc s then s\<lparr>trace := trace s @ [Ev_SetLatch]\<rparr> else s))
              (clock s (clock_reads s)) = Some (Inr (now', s2)) \<longrightarrow>
            handle_sig_alarm c s = Some (schedule_alarm c now' s2)) \<and>
         (handlers_keep_module c \<longrightarrow>
          (\<exists>k s2 reads.
            length reads = Suc k \<and> reads ! 0 = clock_reads s \<and>
            (\<forall>j<k. reads ! j < reads ! Suc j) \<and>
            k \<le> length (queue s) \<and>
            (\<forall>j<k. fin_time (all_timeouts s ! (queue s ! j)) \<le> clock s (reads ! j)) \<and>
            (\<forall>j. k \<le> j \<and> j < length (queue s) \<longrightarrow>
                 clock s (reads ! k) < fin_time (all_timeouts s ! (queue s ! j))) \<and>
            sorted_wrt key_less (map (\<lambda>p. all_timeouts s ! p) (take k (queue s))) \<and>
            handle_sig_alarm c s = Some (schedule_alarm c (clock s (reads ! k)) s2) \<and>
            queue s2 = drop k (queue s) \<and>
            all_timeouts s2 = mark_fired (take k (queue s)) (all_timeouts s) \<and>
            fired_handlers (trace s2) = fired_handlers (trace s) @
              map (\<lambda>p. the (timeout_handler (all_timeouts s ! p))) (take k (queue s)) \<and>
            timeouts_inv c s2))"
proof -
  let ?A = "all_timeouts s" and ?q = "queue s"
  from assms(1) have ok: "queue_ok (MAX_TIMEOUTS c) ?A ?q"
    and lenA: "length ?A = MAX_TIMEOUTS c"
    by (simp_all add: timeouts_inv_alt queue_ok_def)
  have lq: "length ?q = nat (num_active_timeouts s)"
    using assms(1) by (intro length_queue) (simp add: timeouts_inv_alt)
  then have ne: "?q \<noteq> []" using assms(2) by auto
  have a0: "active_timeouts s ! 0 = ?q ! 0" using queue_nth[of 0 s] assms(2) by simp
  have q0: "?q ! 0 \<in> set ?q" using ne by simp
  then have p0: "?q ! 0 < length ?A" and h0: "timeout_handler (?A ! (?q ! 0)) \<noteq> None"
    using ok lenA by (simp_all add: queue_ok_def)
  have turn: "if now \<ge> fin_time (?A ! (?q ! 0)) then
            (\<exists>s1 h. remove_timeout_index 0 s = Inr s1 \<and> queue s1 = tl ?q \<and>
                    timeout_handler (?A ! (?q ! 0)) = Some h \<and>
                    fire_pending c s now =
                      (case call_handler c h
                           (s1\<lparr>all_timeouts := ?A[?q ! 0 := (?A ! (?q ! 0))\<lparr>indicator := True\<rparr>]\<rparr>) of
                         None \<Rightarrow> None
                       | Some (Inl e) \<Rightarrow> Some (Inl e)
                       | Some (Inr s3) \<Rightarrow>
                           fire_pending c (after_clock_read s3) (clock s3 (clock_reads s3))))
          else fire_pending c s now = Some (Inr (now, s))" for now
  proof (cases "now \<ge> fin_time (?A ! (?q ! 0))")
    case False
    then show ?thesis using a0 by (simp add: fire_pending_stop)
  next
    case True
    from h0 obtain h where h: "timeout_handler (?A ! (?q ! 0)) = Some h" by blast
    from remove_head_ok[OF assms] obtain s1 where
      s1: "remove_timeout_index 0 s = Inr s1" "queue s1 = tl ?q" "all_timeouts s1 = ?A"
      by blast
    have "fire_pending c s now =
                      (case call_handler c h
                           (s1\<lparr>all_timeouts := ?A[?q ! 0 := (?A ! (?q ! 0))\<lparr>indicator := True\<rparr>]\<rparr>) of
                         None \<Rightarrow> None
                       | Some (Inl e) \<Rightarrow> Some (Inl e)
                       | Some (Inr s3) \<Rightarrow>
                           fire_pending c (after_clock_read s3) (clock s3 (clock_reads s3)))"
      using fire_pending_step[OF assms(2) _ s1(1,3), of now h c] True a0 p0 h by simp
    then show ?thesis using True s1(1,2) h by auto
  qed
  define s0 where "s0 = (if MyProc s then s\<lparr>trace := trace s @ [Ev_SetLatch]\<rparr> else s)"
  define s1 where "s1 = after_clock_read s0"
  let ?now = "clock s (clock_reads s)"
  have s1: "timeouts_inv c s1" "queue s1 = ?q" "all_timeouts s1 = ?A" "clock s1 = clock s"
    "clock_reads s1 = Suc (clock_reads s)" "num_active_timeouts s0 = num_active_timeouts s"
    "clock s0 (clock_reads s0) = ?now"
    "fired_handlers (trace s1) = fired_handlers (trace s)"
    using assms(1)
    by (simp_all add: s1_def s0_def fired_handlers_append fired_handlers_single)
  have hsa: "handle_sig_alarm c s =
      (case fire_pending c s1 ?now of
         None \<Rightarrow> None
       | Some (Inl e) \<Rightarrow> Some (Inl e)
       | Some (Inr (now', s2)) \<Rightarrow> Some (schedule_alarm c now' s2))"
    using assms(2) s1(6,7)
    by (simp add: handle_sig_alarm_def Let_def GetCurrentTimestamp_eq s0_def[symmetric]
        s1_def[symmetric])
  have last: "\<forall>now' s2. fire_pending c s1 ?now = Some (Inr (now', s2)) \<longrightarrow>
      handle_sig_alarm c s = Some (schedule_alarm c now' s2)"
    by (simp add: hsa)
  have run: "\<exists>k s2 reads.
            length reads = Suc k \<and> reads ! 0 = clock_reads s \<and>
            (\<forall>j<k. reads ! j < reads ! Suc j) \<and>
            k \<le> length ?q \<and>
            (\<forall>j<k. fin_time (?A ! (?q ! j)) \<le> clock s (reads ! j)) \<and>
            (\<forall>j. k \<le> j \<and> j < length ?q \<longrightarrow>
                 clock s (reads ! k) < fin_time (?A ! (?q ! j))) \<and>
            sorted_wrt key_less (map (\<lambda>p. ?A ! p) (take k ?q)) \<and>
            handle_sig_alarm c s = Some (schedule_alarm c (clock s (reads ! k)) s2) \<and>
            queue s2 = drop k ?q \<and>
            all_timeouts s2 = mark_fired (take k ?q) ?A \<and>
            fired_handlers (trace s2) = fired_handlers (trace s) @
              map (\<lambda>p. the (timeout_handler (?A ! p))) (take k ?q) \<and>
            timeouts_inv c s2" if K: "handlers_keep_module c"
  proof -
    have lt: "clock_reads s < clock_reads s1" using s1(5) by simp
    from fire_pending_spec[OF s1(1) K lt] obtain k s2 reads where
      f: "fire_pending c s1 (clock s1 (clock_reads s)) = Some (Inr (clock s1 (reads ! k), s2))"
        "length reads = Suc k" "reads ! 0 = clock_reads s" "\<forall>j<k. reads ! j < reads ! Suc j"
        "k \<le> length (queue s1)"
        "\<forall>j<k. fin_time (all_timeouts s1 ! (queue s1 ! j)) \<le> clock s1 (reads ! j)"
        "k < length (queue s1) \<longrightarrow>
           clock s1 (reads ! k) < fin_time (all_timeouts s1 ! (queue s1 ! k))"
        "timeouts_inv c s2" "queue s2 = drop k (queue s1)"
        "all_timeouts s2 = mark_fired (take k (queue s1)) (all_timeouts s1)"
        "fired_handlers (trace s2) = fired_handlers (trace s1) @
           map (\<lambda>p. the (timeout_handler (all_timeouts s1 ! p))) (take k (queue s1))"
      by blast
    have sorted: "sorted_wrt (\<lambda>x y. key_less (?A ! x) (?A ! y)) ?q"
      using ok by (simp add: queue_ok_def)
    have r1: "k \<le> length ?q" using f(5) s1(2) by simp
    have r2: "\<forall>j<k. fin_time (?A ! (?q ! j)) \<le> clock s (reads ! j)"
      using f(6) s1(2,3,4) by simp
    have r3: "\<forall>j. k \<le> j \<and> j < length ?q \<longrightarrow> clock s (reads ! k) < fin_time (?A ! (?q ! j))"
    proof (intro allI impI)
      fix j assume j: "k \<le> j \<and> j < length ?q"
      then have "k < length ?q" by simp
      then have first: "clock s (reads ! k) < fin_time (?A ! (?q ! k))"
        using f(7) s1(2,3,4) by simp
      show "clock s (reads ! k) < fin_time (?A ! (?q ! j))"
      proof (cases "j = k")
        case True
        then show ?thesis using first by simp
      next
        case False
        then have "k < j" using j by simp
        then have "key_less (?A ! (?q ! k)) (?A ! (?q ! j))"
          using sorted j by (simp add: sorted_wrt_iff_nth_less)
        then show ?thesis using first by (auto simp: key_less_def)
      qed
    qed
    have r4: "sorted_wrt key_less (map (\<lambda>p. ?A ! p) (take k ?q))"
      using sorted_wrt_take[OF sorted, of k] by (simp add: sorted_wrt_map)
    have r5: "handle_sig_alarm c s = Some (schedule_alarm c (clock s (reads ! k)) s2)"
      using f(1) s1(4) by (simp add: hsa)
    have r6: "queue s2 = drop k ?q" using f(9) s1(2) by simp
    have r7: "all_timeouts s2 = mark_fired (take k ?q) ?A" using f(10) s1(2,3) by simp
    have r8: "fired_handlers (trace s2) = fired_handlers (trace s) @
              map (\<lambda>p. the (timeout_handler (?A ! p))) (take k ?q)"
      using f(11) s1(2,3,8) by simp
    show ?thesis
      by (intro exI[of _ k] exI[of _ s2] exI[of _ reads] conjI)
         (fact f(2) f(3) f(4) r1 r2 r3 r4 r5 r6 r7 r8 f(8))+
  qed
  show ?thesis
  proof (intro conjI allI impI)
    fix now
    show "if now \<ge> fin_time (?A ! (?q ! 0)) then
            (\<exists>s1 h. remove_timeout_index 0 s = Inr s1 \<and> queue s1 = tl ?q \<and>
                    timeout_handler (?A ! (?q ! 0)) = Some h \<and>
                    fire_pending c s now =
                      (case call_handler c h
                           (s1\<lparr>all_timeouts := ?A[?q ! 0 := (?A ! (?q ! 0))\<lparr>indicator := True\<rparr>]\<rparr>) of
                         None \<Rightarrow> None
                       | Some (Inl e) \<Rightarrow> Some (Inl e)
                       | Some (Inr s3) \<Rightarrow>
                           fire_pending c (after_clock_read s3) (clock s3 (clock_reads s3))))
          else fire_pending c s now = Some (Inr (now, s))"
      by (rule turn)
  next
    fix now' s2
    assume "fire_pending c
              (after_clock_read (if MyProc s then s\<lparr>trace := trace s @ [Ev_SetLatch]\<rparr> else s))
              (clock s (clock_reads s)) = Some (Inr (now', s2))"
    then show "handle_sig_alarm c s = Some (schedule_alarm c now' s2)"
      using last by (simp add: s1_def s0_def)
  next
    assume "handlers_keep_module c"
    then show "\<exists>k s2 reads.
            length reads = Suc k \<and> reads ! 0 = clock_reads s \<and>
            (\<forall>j<k. reads ! j < reads ! Suc j) \<and>
            k \<le> length ?q \<and>
            (\<forall>j<k. fin_time (?A ! (?q ! j)) \<le> clock s (reads ! j)) \<and>
            (\<forall>j. k \<le> j \<and> j < length ?q \<longrightarrow>
                 clock s (reads ! k) < fin_time (?A ! (?q ! j))) \<and>
            sorted_wrt key_less (map (\<lambda>p. ?A ! p) (take k ?q)) \<and>
            handle_sig_alarm c s = Some (schedule_alarm c (clock s (reads ! k)) s2) \<and>
            queue s2 = drop k ?q \<and>
            all_timeouts s2 = mark_fired (take k ?q) ?A \<and>
            fired_handlers (trace s2) = fired_handlers (trace s) @
              map (\<lambda>p. the (timeout_handler (?A ! p))) (take k ?q) \<and>
            timeouts_inv c s2"
      by (rule run)
  qed
qed

text \<open>
  In the example state the queue holds reason 1, due at 50, and reason 3, due at 200; the
  clock reads 100, then 101, and the callbacks of the example platform do nothing. The
  handler of reason 1 is called, reason 3 stays queued, and the alarm is scheduled for it.
\<close>

theorem handle_sig_alarm_fires_queue_prefix_witness:
  "timeouts_inv example_platform example_state \<and>
   num_active_timeouts example_state > 0 \<and>
   handlers_keep_module example_platform \<and>
   (\<exists>s2 r. handle_sig_alarm example_platform example_state =
             Some (schedule_alarm example_platform (100 + int r) s2) \<and>
           0 < r \<and>
           queue s2 = [3] \<and>
           indicator (all_timeouts s2 ! 1) = True \<and>
           fired_handlers (trace s2) = [11]) \<and>
   trace (the (final_state (handle_sig_alarm example_platform example_state))) =
     [Ev_SetLatch, Ev_GetCurrentTimestamp 100, Ev_handler 11, Ev_GetCurrentTimestamp 101,
      Ev_setitimer 0 99]"
proof -
  have inv: "timeouts_inv example_platform example_state"
    by (simp add: timeouts_inv_def module_initialized_def queue_sorted_def queue_distinct_def
      queue_handlers_def queue_bounded_def queue_entries_def queue_def example_platform_def
      example_state_def key_less_def upt_rec)
  have n: "num_active_timeouts example_state > 0" by (simp add: example_state_def)
  have K: "handlers_keep_module example_platform"
    by (simp add: handlers_keep_module_def example_platform_def)
  have q: "queue example_state = [1, 3]" by (simp add: queue_def example_state_def)
  have A: "timeout_handler (all_timeouts example_state ! 1) = Some 11"
    "length (all_timeouts example_state) = 5"
    "clock_reads example_state = 0" "\<And>j. clock example_state j = 100 + int j"
    "trace example_state = []"
    by (simp_all add: example_state_def)
  have run: "final_state (handle_sig_alarm example_platform example_state) \<noteq> None"
    "queue (the (final_state (handle_sig_alarm example_platform example_state))) = [3]"
    "trace (the (final_state (handle_sig_alarm example_platform example_state))) =
     [Ev_SetLatch, Ev_GetCurrentTimestamp 100, Ev_handler 11, Ev_GetCurrentTimestamp 101,
      Ev_setitimer 0 99]"
    by code_simp+
  from run(1) obtain S where S: "handle_sig_alarm example_platform example_state = Some (Inr S)"
    by (auto simp: final_state_def split: option.splits sum.splits)
  then have qS: "queue S = [3]" using run(2) by (simp add: final_state_def)
  from handle_sig_alarm_fires_queue_prefix[OF inv n] K obtain k s2 reads where
    r: "length reads = Suc k" "reads ! 0 = clock_reads example_state"
       "\<forall>j<k. reads ! j < reads ! Suc j"
       "handle_sig_alarm example_platform example_state =
          Some (schedule_alarm example_platform (clock example_state (reads ! k)) s2)"
       "queue s2 = drop k (queue example_state)"
       "all_timeouts s2 = mark_fired (take k (queue example_state)) (all_timeouts example_state)"
       "fired_handlers (trace s2) = fired_handlers (trace example_state) @
          map (\<lambda>p. the (timeout_handler (all_timeouts example_state ! p)))
            (take k (queue example_state))"
    by blast
  have "schedule_alarm example_platform (clock example_state (reads ! k)) s2 = Inr S"
    using r(4) S by simp
  then have "queue s2 = [3]" using schedule_alarm_queue qS by metis
  then have "drop k [1, 3::nat] = [3]" using r(5) q by simp
  then have "length (drop k [1, 3::nat]) = 1" by simp
  then have k: "k = 1" by simp
  have "reads ! 0 < reads ! Suc 0" using r(3) k by simp
  then have pos: "0 < reads ! 1" using r(2) A(3) by simp
  have "handle_sig_alarm example_platform example_state =
      Some (schedule_alarm example_platform (100 + int (reads ! 1)) s2)"
    using r(4) k A by simp
  moreover have "queue s2 = [3]" using r(5) k q by simp
  moreover have "indicator (all_timeouts s2 ! 1) = True"
    using r(6) k q A(2) by (simp add: mark_fired_def)
  moreover have "fired_handlers (trace s2) = [11]"
    using r(7) k q A by (simp add: fired_handlers_def)
  ultimately have "\<exists>s2 r. handle_sig_alarm example_platform example_state =
             Some (schedule_alarm example_platform (100 + int r) s2) \<and>
           0 < r \<and> queue s2 = [3] \<and> indicator (all_timeouts s2 ! 1) = True \<and>
           fired_handlers (trace s2) = [11]"
    using pos by blast
  then show ?thesis using inv n K run(3) by blast
qed

text \<open>
  The firing order of the claim does not hold for callbacks of any kind. On the platform
  whose callback of reason 1 arms reason 0 for time 10, the same delivery returns after
  calling the callback of reason 1, due at 50, and then that of reason 0, due at 10 and
  not in the queue when the signal arrived: the later one has the smaller
  \<open>(fin_time, index)\<close>.
\<close>

theorem handle_sig_alarm_rearming_handler_out_of_order:
  "timeouts_inv rearming_platform example_state \<and>
   num_active_timeouts example_state > 0 \<and>
   queue example_state = [1, 3] \<and>
   timeout_handler (all_timeouts example_state ! 1) = Some 11 \<and>
   timeout_handler (all_timeouts example_state ! 0) = Some 10 \<and>
   final_state (handle_sig_alarm rearming_platform example_state) \<noteq> None \<and>
   fired_handlers
     (trace (the (final_state (handle_sig_alarm rearming_platform example_state)))) = [11, 10] \<and>
   fin_time
     (all_timeouts (the (final_state (handle_sig_alarm rearming_platform example_state))) ! 1) = 50 \<and>
   fin_time
     (all_timeouts (the (final_state (handle_sig_alarm rearming_platform example_state))) ! 0) = 10 \<and>
   \<not> key_less
      (all_timeouts (the (final_state (handle_sig_alarm rearming_platform example_state))) ! 1)
      (all_timeouts (the (final_state (handle_sig_alarm rearming_platform example_state))) ! 0)"
  by code_simp

end
